theory Spec2Isabelle
  imports Complex_Main "HOL-Library.Word" "HOL-Library.Sublist"
begin

section \<open>Status values (absl::Status / tensorflow::Status)\<close>

text \<open>
  A status is a code together with a message. The conversions
  \<^verbatim>\<open>ToTensorflowStatus\<close> and \<^verbatim>\<open>FromTensorflowStatus\<close> keep both
  components, so one type stands for both status classes.
\<close>

datatype StatusCode =
    kOk | kCancelled | kUnknown | kInvalidArgument | kDeadlineExceeded
  | kNotFound | kAlreadyExists | kPermissionDenied | kResourceExhausted
  | kFailedPrecondition | kAborted | kOutOfRange | kUnimplemented
  | kInternal | kUnavailable | kDataLoss | kUnauthenticated

record Status =
  code :: StatusCode
  message :: string

definition OkStatus :: Status where
  "OkStatus = \<lparr>code = kOk, message = []\<rparr>"

definition ok :: "Status \<Rightarrow> bool" where
  "ok s = (code s = kOk)"

definition InvalidArgumentError :: "string \<Rightarrow> Status" where
  "InvalidArgumentError msg = \<lparr>code = kInvalidArgument, message = msg\<rparr>"

definition FailedPreconditionError :: "string \<Rightarrow> Status" where
  "FailedPreconditionError msg = \<lparr>code = kFailedPrecondition, message = msg\<rparr>"

definition DeadlineExceeded :: "string \<Rightarrow> Status" where
  "DeadlineExceeded msg = \<lparr>code = kDeadlineExceeded, message = msg\<rparr>"

definition Cancelled :: "string \<Rightarrow> Status" where
  "Cancelled msg = \<lparr>code = kCancelled, message = msg\<rparr>"

definition IsDeadlineExceeded :: "Status \<Rightarrow> bool" where
  "IsDeadlineExceeded s = (code s = kDeadlineExceeded)"

text \<open>\<^verbatim>\<open>absl::StrContains(haystack, needle)\<close>: the needle occurs as a
  contiguous run of characters of the haystack.\<close>

fun StrContains :: "string \<Rightarrow> string \<Rightarrow> bool" where
  "StrContains [] needle = (needle = [])"
| "StrContains (c # cs) needle = (prefix needle (c # cs) \<or> StrContains cs needle)"

section \<open>errors.cc\<close>

definition kTimeoutExceededErrorMessage :: string where
  "kTimeoutExceededErrorMessage =
     ''Rate Limiter: Timeout exceeded before the right to insert was acquired.''"

definition RateLimiterTimeout :: Status where
  "RateLimiterTimeout = DeadlineExceeded kTimeoutExceededErrorMessage"

definition IsRateLimiterTimeout :: "Status \<Rightarrow> bool" where
  "IsRateLimiterTimeout status =
     (IsDeadlineExceeded status \<and>
      StrContains (message status) kTimeoutExceededErrorMessage)"

section \<open>ops/dataset.cc: the iterator's GetNextInternal\<close>

text \<open>
  \<^verbatim>\<open>absl::Duration\<close> is a finite number of milliseconds or one of the two
  infinite durations; \<open>Duration_less\<close> is its \<^verbatim>\<open>operator<\<close>.
\<close>

datatype Duration = NegInfiniteDuration | Milliseconds int | InfiniteDuration

fun Duration_less :: "Duration \<Rightarrow> Duration \<Rightarrow> bool" where
  "Duration_less (Milliseconds a) (Milliseconds b) = (a < b)"
| "Duration_less InfiniteDuration _ = False"
| "Duration_less _ InfiniteDuration = True"
| "Duration_less _ NegInfiniteDuration = False"
| "Duration_less NegInfiniteDuration _ = True"

text \<open>Decimal rendering of integers, as \<^verbatim>\<open>StrCat\<close> prints them.\<close>

fun digit_char :: "nat \<Rightarrow> char" where
  "digit_char n = ''0123456789'' ! n"

function string_of_nat :: "nat \<Rightarrow> string" where
  "string_of_nat n =
     (if n < 10 then [digit_char n]
      else string_of_nat (n div 10) @ [digit_char (n mod 10)])"
  by pat_completeness auto
termination
  by (relation "measure (\<lambda>n. n)") auto

definition string_of_int :: "int \<Rightarrow> string" where
  "string_of_int i =
     (if i < 0 then CHR ''-'' # string_of_nat (nat (- i)) else string_of_nat (nat i))"

text \<open>
  The iterator's configuration (constant members) and what its collaborators
  answer during one call of an initialised iterator (the sampler exists): whether the cancellation callback could be
  registered, the status the sampler returned together with the value it left
  in \<^verbatim>\<open>last_timestep\<close> (initialised to false and only read when timesteps
  are emitted), and whether the callback could be deregistered afterwards.
\<close>

record IteratorConfig =
  rate_limiter_timeout :: Duration
  sequence_length :: int
  emit_timesteps :: bool

record GetNextEnv =
  registered :: bool
  sampler_status :: Status
  last_timestep :: bool
  deregistered :: bool

text \<open>
  The outcome: the returned status, the value written to
  \<^verbatim>\<open>*end_of_sequence\<close> (\<open>None\<close> when the call does not write it), the new
  value of \<^verbatim>\<open>step_within_sample_\<close>, and whether the call closed the
  sampler itself.
\<close>

record GetNextResult =
  returned :: Status
  end_of_sequence :: "bool option"
  step_within_sample :: int
  sampler_closed :: bool

definition GetNextInternal_finish ::
  "IteratorConfig \<Rightarrow> GetNextEnv \<Rightarrow> int \<Rightarrow> GetNextResult" where
  "GetNextInternal_finish cfg env step =
     (let status = sampler_status env; closed = (\<not> registered env) in
      if registered env \<and> \<not> deregistered env then
        \<lparr>returned = Cancelled ''Iterator context was cancelled'',
         end_of_sequence = None, step_within_sample = step, sampler_closed = closed\<rparr>
      else if ok status then
        \<lparr>returned = status, end_of_sequence = Some False,
         step_within_sample = step, sampler_closed = closed\<rparr>
      else if Duration_less (rate_limiter_timeout cfg) InfiniteDuration \<and>
              IsRateLimiterTimeout status then
        \<lparr>returned = OkStatus, end_of_sequence = Some True,
         step_within_sample = step, sampler_closed = closed\<rparr>
      else
        \<lparr>returned = status, end_of_sequence = None,
         step_within_sample = step, sampler_closed = closed\<rparr>)"

definition GetNextInternal ::
  "IteratorConfig \<Rightarrow> int \<Rightarrow> GetNextEnv \<Rightarrow> GetNextResult" where
  "GetNextInternal cfg step0 env =
     (if emit_timesteps cfg then
        (let step = step0 + 1 in
         if last_timestep env \<and> sequence_length cfg > 0 \<and> step \<noteq> sequence_length cfg then
           \<lparr>returned = InvalidArgumentError
              (''Received sequence of invalid length. Expected '' @
               string_of_int (sequence_length cfg) @ '' steps, got '' @ string_of_int step),
            end_of_sequence = None, step_within_sample = step,
            sampler_closed = (\<not> registered env)\<rparr>
         else if step = sequence_length cfg \<and> \<not> last_timestep env then
           \<lparr>returned = InvalidArgumentError
              (''Received sequence did not terminate after expected number of steps ('' @
               string_of_int (sequence_length cfg) @ '').''),
            end_of_sequence = None, step_within_sample = step,
            sampler_closed = (\<not> registered env)\<rparr>
         else GetNextInternal_finish cfg env (if last_timestep env then 0 else step))
      else GetNextInternal_finish cfg env step0)"

section \<open>pybind.cc: the WeakCellRef bindings\<close>

datatype PyExc =
  PyExc_ValueError | PyExc_IndexError | PyExc_NotImplementedError | PyExc_RuntimeError

record PyError =
  exc :: PyExc
  what :: string

text \<open>\<^verbatim>\<open>MaybeRaiseFromStatus\<close>: \<open>None\<close> when it returns normally, \<open>Some e\<close>
  when it throws the Python exception \<open>e\<close>.\<close>

definition MaybeRaiseFromStatus :: "Status \<Rightarrow> PyError option" where
  "MaybeRaiseFromStatus status =
     (if ok status then None
      else Some \<lparr>exc = (case code status of
                           kInvalidArgument \<Rightarrow> PyExc_ValueError
                         | kResourceExhausted \<Rightarrow> PyExc_IndexError
                         | kUnimplemented \<Rightarrow> PyExc_NotImplementedError
                         | kInternal \<Rightarrow> PyExc_RuntimeError
                         | _ \<Rightarrow> PyExc_RuntimeError),
                 what = message status\<rparr>)"

text \<open>
  A \<^verbatim>\<open>CellRef\<close> as the bindings use it: \<^verbatim>\<open>GetData\<close> and \<^verbatim>\<open>GetSpec\<close>
  each answer a status and fill an output parameter. A tensor spec is a dtype
  and a list of dimension sizes, 64-bit signed integers with \<open>-1\<close> for an
  unknown dimension.
\<close>

record ('dt) TensorSpec =
  dtype :: 'dt
  shape :: "64 word list"

record ('t, 'dt) CellRef =
  GetData :: "Status \<times> 't"
  GetSpec :: "Status \<times> 'dt TensorSpec"

text \<open>
  A \<^verbatim>\<open>std::weak_ptr<CellRef>\<close> at the moment of the call: \<open>None\<close> when the
  referenced object is gone, so that \<^verbatim>\<open>lock()\<close> yields a null pointer.
\<close>

record ('t, 'dt) WeakCellRef =
  ref :: "('t, 'dt) CellRef option"

definition expired :: "('t, 'dt) WeakCellRef \<Rightarrow> bool" where
  "expired r = (ref r = None)"

definition lock :: "('t, 'dt) WeakCellRef \<Rightarrow> ('t, 'dt) CellRef option" where
  "lock r = ref r"

text \<open>
  Every accessor reports the calls it made on the reference, in order, next
  to its result (\<open>Inl\<close> is the raised Python exception).
\<close>

datatype CellCall = CallLock | CallGetData | CallGetSpec

text \<open>The status each accessor raises from when the reference has expired.\<close>

definition expired_access_error :: Status where
  "expired_access_error =
     FailedPreconditionError ''Cannot access data from expired WeakCellRef''"

definition numpy ::
  "'t \<Rightarrow> ('t, 'dt) WeakCellRef \<Rightarrow> CellCall list \<times> (PyError + 't)" where
  "numpy empty_tensor r =
     (case lock r of
        None \<Rightarrow>
          (case MaybeRaiseFromStatus expired_access_error of
             Some e \<Rightarrow> ([CallLock], Inl e)
           | None \<Rightarrow> ([CallLock], Inr empty_tensor))
      | Some sp \<Rightarrow>
          (let (status, tensor) = GetData sp in
           case MaybeRaiseFromStatus status of
             Some e \<Rightarrow> ([CallLock, CallGetData], Inl e)
           | None \<Rightarrow> ([CallLock, CallGetData], Inr tensor)))"

text \<open>
  The shape accessor returns a \<^verbatim>\<open>std::vector<absl::optional<int>>\<close>: a
  dimension is compared with \<open>-1\<close> as a 64-bit integer, and the optional
  holding it is then converted to an optional \<^verbatim>\<open>int\<close>, which keeps the low
  32 bits of the size. The dimensions are read from the spec whatever the
  status of \<^verbatim>\<open>GetSpec\<close>; the status is looked at afterwards.
\<close>

definition shape_accessor ::
  "('t, 'dt) WeakCellRef \<Rightarrow> CellCall list \<times> (PyError + 32 word option list)" where
  "shape_accessor r =
     (case lock r of
        None \<Rightarrow>
          (case MaybeRaiseFromStatus expired_access_error of
             Some e \<Rightarrow> ([CallLock], Inl e)
           | None \<Rightarrow> ([CallLock], Inr []))
      | Some sp \<Rightarrow>
          (let (status, spec) = GetSpec sp;
               out_shape = map (\<lambda>dim. if dim = -1 then None else Some (scast dim))
                             (shape spec)
           in case MaybeRaiseFromStatus status of
                Some e \<Rightarrow> ([CallLock, CallGetSpec], Inl e)
              | None \<Rightarrow> ([CallLock, CallGetSpec], Inr out_shape)))"

text \<open>
  The dtype accessor does not return after the raising call on an expired
  reference; since \<^verbatim>\<open>MaybeRaiseFromStatus\<close> throws there, the code after it
  is reached only with a live reference. \<^verbatim>\<open>GetPyDescrFromDataType\<close> is a
  parameter; \<open>no_dtype\<close> is the default-constructed \<^verbatim>\<open>py::dtype\<close>.
\<close>

definition dtype_accessor ::
  "('dt \<Rightarrow> Status \<times> 'd) \<Rightarrow> 'd \<Rightarrow> ('t, 'dt) WeakCellRef \<Rightarrow>
     CellCall list \<times> (PyError + 'd)" where
  "dtype_accessor GetPyDescrFromDataType no_dtype r =
     (case (case lock r of
              None \<Rightarrow> MaybeRaiseFromStatus expired_access_error
            | Some _ \<Rightarrow> None) of
        Some e \<Rightarrow> ([CallLock], Inl e)
      | None \<Rightarrow>
         (case lock r of
            None \<Rightarrow> ([CallLock], Inr no_dtype)
          | Some sp \<Rightarrow>
              (let (status0, spec) = GetSpec sp;
                   (status, dt) =
                     (if ok status0 then
                        (let (status1, descr) = GetPyDescrFromDataType (dtype spec)
                         in (status1, if ok status1 then descr else no_dtype))
                      else (status0, no_dtype))
               in case MaybeRaiseFromStatus status of
                    Some e \<Rightarrow> ([CallLock, CallGetSpec], Inl e)
                  | None \<Rightarrow> ([CallLock, CallGetSpec], Inr dt))))"

section \<open>Item selectors\<close>

text \<open>
  Keys are unsigned 64-bit integers, priorities and probabilities are
  doubles. The selectors only multiply a priority by \<open>1\<close> or \<open>-1\<close>, compare
  priorities and divide \<open>1\<close> by a size, so doubles are read as real numbers
  (no NaN priorities).
\<close>

type_synonym Key = "64 word"

record KeyWithProbability =
  key :: Key
  probability :: real

definition StrCat_Key :: "string \<Rightarrow> Key \<Rightarrow> string \<Rightarrow> string" where
  "StrCat_Key pre k post = pre @ string_of_nat (unat k) @ post"

text \<open>\<^verbatim>\<open>flat_hash_map::emplace\<close>: stores the value only when the key is
  absent and tells whether it did.\<close>

definition emplace :: "('k \<rightharpoonup> 'v) \<Rightarrow> 'k \<Rightarrow> 'v \<Rightarrow> ('k \<rightharpoonup> 'v) \<times> bool" where
  "emplace m k v = (case m k of None \<Rightarrow> (m(k \<mapsto> v), True) | Some _ \<Rightarrow> (m, False))"

text \<open>The calls a table makes on a selector, for talking about the states
  a selector can reach.\<close>

datatype SelectorOp = Insert Key real | Delete Key | Update Key real | Clear

subsection \<open>selectors/uniform.cc\<close>

record UniformSelector =
  uniform_keys :: "Key list"
  uniform_key_to_index :: "Key \<rightharpoonup> nat"

definition Uniform_init :: UniformSelector where
  "Uniform_init = \<lparr>uniform_keys = [], uniform_key_to_index = Map.empty\<rparr>"

definition Uniform_Delete :: "UniformSelector \<Rightarrow> Key \<Rightarrow> Status \<times> UniformSelector" where
  "Uniform_Delete s k =
     (case uniform_key_to_index s k of
        None \<Rightarrow> (InvalidArgumentError (StrCat_Key ''Key '' k '' not found.''), s)
      | Some index \<Rightarrow>
          (let erased = (uniform_key_to_index s)(k := None);
               last_index = length (uniform_keys s) - 1;
               last_key = last (uniform_keys s);
               moved = (if index \<noteq> last_index
                        then ((uniform_keys s)[index := last_key], erased(last_key \<mapsto> index))
                        else (uniform_keys s, erased))
           in (OkStatus,
               \<lparr>uniform_keys = butlast (fst moved), uniform_key_to_index = snd moved\<rparr>)))"

definition Uniform_Insert ::
  "UniformSelector \<Rightarrow> Key \<Rightarrow> real \<Rightarrow> Status \<times> UniformSelector" where
  "Uniform_Insert s k priority =
     (let index = length (uniform_keys s);
          emplaced = emplace (uniform_key_to_index s) k index
      in if \<not> snd emplaced
         then (InvalidArgumentError (StrCat_Key ''Key '' k '' already inserted.''),
               s\<lparr>uniform_key_to_index := fst emplaced\<rparr>)
         else (OkStatus,
               \<lparr>uniform_keys = uniform_keys s @ [k], uniform_key_to_index = fst emplaced\<rparr>))"

definition Uniform_Update ::
  "UniformSelector \<Rightarrow> Key \<Rightarrow> real \<Rightarrow> Status \<times> UniformSelector" where
  "Uniform_Update s k priority =
     (if uniform_key_to_index s k = None
      then (InvalidArgumentError (StrCat_Key ''Key '' k '' not found.''), s)
      else (OkStatus, s))"

text \<open>
  \<^verbatim>\<open>Sample\<close>: \<open>None\<close> is the failed \<^verbatim>\<open>REVERB_CHECK\<close>. The argument \<open>index\<close>
  is what \<^verbatim>\<open>absl::Uniform<size_t>(bit_gen_, 0, keys_.size())\<close> drew, a number
  below the size.
\<close>

definition Uniform_Sample :: "UniformSelector \<Rightarrow> nat \<Rightarrow> KeyWithProbability option" where
  "Uniform_Sample s index =
     (if uniform_keys s = [] then None
      else Some \<lparr>key = uniform_keys s ! index,
                 probability = 1 / real (length (uniform_keys s))\<rparr>)"

definition Uniform_Clear :: "UniformSelector \<Rightarrow> UniformSelector" where
  "Uniform_Clear s = \<lparr>uniform_keys = [], uniform_key_to_index = Map.empty\<rparr>"

fun Uniform_apply :: "UniformSelector \<Rightarrow> SelectorOp \<Rightarrow> UniformSelector" where
  "Uniform_apply s (Insert k p) = snd (Uniform_Insert s k p)"
| "Uniform_apply s (Delete k) = snd (Uniform_Delete s k)"
| "Uniform_apply s (Update k p) = snd (Uniform_Update s k p)"
| "Uniform_apply s Clear = Uniform_Clear s"

definition Uniform_run :: "SelectorOp list \<Rightarrow> UniformSelector" where
  "Uniform_run ops = foldl Uniform_apply Uniform_init ops"

subsection \<open>std::list with stable iterators\<close>

text \<open>
  A \<^verbatim>\<open>std::list<Key>\<close> is the sequence of its nodes, each node written
  with its address; an iterator is the address of a node. Inserting
  allocates a node at an address no node of the list has.
\<close>

type_synonym KeyList = "(nat \<times> Key) list"

definition fresh_node :: "KeyList \<Rightarrow> nat" where
  "fresh_node xs = Suc (fold max (map fst xs) 0)"

definition list_emplace_begin :: "KeyList \<Rightarrow> Key \<Rightarrow> KeyList \<times> nat" where
  "list_emplace_begin xs k = (let it = fresh_node xs in ((it, k) # xs, it))"

definition list_emplace_end :: "KeyList \<Rightarrow> Key \<Rightarrow> KeyList \<times> nat" where
  "list_emplace_end xs k = (let it = fresh_node xs in (xs @ [(it, k)], it))"

definition list_erase :: "KeyList \<Rightarrow> nat \<Rightarrow> KeyList" where
  "list_erase xs it = filter (\<lambda>node. fst node \<noteq> it) xs"

definition list_front :: "KeyList \<Rightarrow> Key" where
  "list_front xs = snd (hd xs)"

subsection \<open>selectors/lifo.cc\<close>

record LifoSelector =
  lifo_keys :: KeyList
  lifo_key_to_iterator :: "Key \<rightharpoonup> nat"

definition Lifo_init :: LifoSelector where
  "Lifo_init = \<lparr>lifo_keys = [], lifo_key_to_iterator = Map.empty\<rparr>"

definition Lifo_Delete :: "LifoSelector \<Rightarrow> Key \<Rightarrow> Status \<times> LifoSelector" where
  "Lifo_Delete s k =
     (case lifo_key_to_iterator s k of
        None \<Rightarrow> (InvalidArgumentError (StrCat_Key ''Key '' k '' not found.''), s)
      | Some it \<Rightarrow>
          (OkStatus,
           \<lparr>lifo_keys = list_erase (lifo_keys s) it,
            lifo_key_to_iterator = (lifo_key_to_iterator s)(k := None)\<rparr>))"

definition Lifo_Insert :: "LifoSelector \<Rightarrow> Key \<Rightarrow> real \<Rightarrow> Status \<times> LifoSelector" where
  "Lifo_Insert s k priority =
     (if lifo_key_to_iterator s k \<noteq> None
      then (InvalidArgumentError (StrCat_Key ''Key '' k '' already inserted.''), s)
      else (let placed = list_emplace_begin (lifo_keys s) k
            in (OkStatus,
                \<lparr>lifo_keys = fst placed,
                 lifo_key_to_iterator =
                   fst (emplace (lifo_key_to_iterator s) k (snd placed))\<rparr>)))"

definition Lifo_Update :: "LifoSelector \<Rightarrow> Key \<Rightarrow> real \<Rightarrow> Status \<times> LifoSelector" where
  "Lifo_Update s k priority =
     (if lifo_key_to_iterator s k = None
      then (InvalidArgumentError (StrCat_Key ''Key '' k '' not found.''), s)
      else (OkStatus, s))"

text \<open>\<^verbatim>\<open>Sample\<close> returns the selector next to its answer, to say what
  the call leaves of the state.\<close>

definition Lifo_Sample :: "LifoSelector \<Rightarrow> (KeyWithProbability \<times> LifoSelector) option" where
  "Lifo_Sample s =
     (if lifo_keys s = [] then None
      else Some (\<lparr>key = list_front (lifo_keys s), probability = 1\<rparr>, s))"

definition Lifo_Clear :: "LifoSelector \<Rightarrow> LifoSelector" where
  "Lifo_Clear s = \<lparr>lifo_keys = [], lifo_key_to_iterator = Map.empty\<rparr>"

fun Lifo_apply :: "LifoSelector \<Rightarrow> SelectorOp \<Rightarrow> LifoSelector" where
  "Lifo_apply s (Insert k p) = snd (Lifo_Insert s k p)"
| "Lifo_apply s (Delete k) = snd (Lifo_Delete s k)"
| "Lifo_apply s (Update k p) = snd (Lifo_Update s k p)"
| "Lifo_apply s Clear = Lifo_Clear s"

definition Lifo_run :: "SelectorOp list \<Rightarrow> LifoSelector" where
  "Lifo_run ops = foldl Lifo_apply Lifo_init ops"

subsection \<open>selectors/fifo.h\<close>

text \<open>
  Modelled from the spec: the bodies of \<^verbatim>\<open>FifoSelector\<close>'s methods
  (fifo.cc) are not among the sources, only the class declaration with its
  members \<^verbatim>\<open>keys_\<close> and \<^verbatim>\<open>key_to_iterator_\<close> is. The spec gives a doubly
  linked list plus a map from keys to iterators, Sample returning the front
  with probability 1, Insert failing \<^verbatim>\<open>InvalidArgument\<close> on a duplicate key
  and Delete and Update failing \<^verbatim>\<open>InvalidArgument\<close> on an unknown key; the
  header adds that priorities are ignored, that Update is otherwise a no-op
  and that Sample returns the key inserted first until that key is deleted,
  so Insert places the key at the end of the list.
\<close>

record FifoSelector =
  fifo_keys :: KeyList
  fifo_key_to_iterator :: "Key \<rightharpoonup> nat"

definition Fifo_init :: FifoSelector where
  "Fifo_init = \<lparr>fifo_keys = [], fifo_key_to_iterator = Map.empty\<rparr>"

definition Fifo_Delete :: "FifoSelector \<Rightarrow> Key \<Rightarrow> Status \<times> FifoSelector" where
  "Fifo_Delete s k =
     (case fifo_key_to_iterator s k of
        None \<Rightarrow> (InvalidArgumentError (StrCat_Key ''Key '' k '' not found.''), s)
      | Some it \<Rightarrow>
          (OkStatus,
           \<lparr>fifo_keys = list_erase (fifo_keys s) it,
            fifo_key_to_iterator = (fifo_key_to_iterator s)(k := None)\<rparr>))"

definition Fifo_Insert :: "FifoSelector \<Rightarrow> Key \<Rightarrow> real \<Rightarrow> Status \<times> FifoSelector" where
  "Fifo_Insert s k priority =
     (if fifo_key_to_iterator s k \<noteq> None
      then (InvalidArgumentError (StrCat_Key ''Key '' k '' already inserted.''), s)
      else (let placed = list_emplace_end (fifo_keys s) k
            in (OkStatus,
                \<lparr>fifo_keys = fst placed,
                 fifo_key_to_iterator =
                   fst (emplace (fifo_key_to_iterator s) k (snd placed))\<rparr>)))"

definition Fifo_Update :: "FifoSelector \<Rightarrow> Key \<Rightarrow> real \<Rightarrow> Status \<times> FifoSelector" where
  "Fifo_Update s k priority =
     (if fifo_key_to_iterator s k = None
      then (InvalidArgumentError (StrCat_Key ''Key '' k '' not found.''), s)
      else (OkStatus, s))"

definition Fifo_Sample :: "FifoSelector \<Rightarrow> (KeyWithProbability \<times> FifoSelector) option" where
  "Fifo_Sample s =
     (if fifo_keys s = [] then None
      else Some (\<lparr>key = list_front (fifo_keys s), probability = 1\<rparr>, s))"

definition Fifo_Clear :: "FifoSelector \<Rightarrow> FifoSelector" where
  "Fifo_Clear s = \<lparr>fifo_keys = [], fifo_key_to_iterator = Map.empty\<rparr>"

fun Fifo_apply :: "FifoSelector \<Rightarrow> SelectorOp \<Rightarrow> FifoSelector" where
  "Fifo_apply s (Insert k p) = snd (Fifo_Insert s k p)"
| "Fifo_apply s (Delete k) = snd (Fifo_Delete s k)"
| "Fifo_apply s (Update k p) = snd (Fifo_Update s k p)"
| "Fifo_apply s Clear = Fifo_Clear s"

definition Fifo_run :: "SelectorOp list \<Rightarrow> FifoSelector" where
  "Fifo_run ops = foldl Fifo_apply Fifo_init ops"

subsection \<open>The heap selector (heap.cc)\<close>

text \<open>
  Modelled from the spec: heap.h (the node type, the comparison of nodes and
  the members of \<^verbatim>\<open>HeapSelector\<close>) and the intrusive heap it instantiates
  are not among the sources. The spec gives a heap keyed by the pair of the
  sign-adjusted priority and the update counter, whose root Sample returns,
  with ties between equal priorities broken by the update counter so that
  later updates rise. A node therefore carries its key, its priority and its
  update number; of two nodes the one with the smaller priority is nearer
  the root, and of two nodes with equal priorities the one with the larger
  update number is. The heap is the collection of the node pointers pushed
  and not removed, and its top is the node no other node goes before. A
  pointer to a node is written as the key under which \<^verbatim>\<open>nodes_\<close> owns the
  node. The update counter is a natural number.
\<close>

record HeapNode =
  node_key :: Key
  priority :: real
  update_number :: nat

definition HeapNodeCompare :: "HeapNode \<Rightarrow> HeapNode \<Rightarrow> bool" where
  "HeapNodeCompare a b =
     (priority a < priority b \<or>
      (priority a = priority b \<and> update_number b < update_number a))"

type_synonym IntrusiveHeap = "Key list"

definition heap_Push :: "IntrusiveHeap \<Rightarrow> Key \<Rightarrow> IntrusiveHeap" where
  "heap_Push h p = p # h"

definition heap_Remove :: "IntrusiveHeap \<Rightarrow> Key \<Rightarrow> IntrusiveHeap" where
  "heap_Remove h p = removeAll p h"

definition heap_Adjust :: "IntrusiveHeap \<Rightarrow> Key \<Rightarrow> IntrusiveHeap" where
  "heap_Adjust h p = h"

fun best_node :: "HeapNode \<Rightarrow> HeapNode list \<Rightarrow> HeapNode" where
  "best_node b [] = b"
| "best_node b (n # ns) = best_node (if HeapNodeCompare n b then n else b) ns"

definition heap_top :: "(Key \<rightharpoonup> HeapNode) \<Rightarrow> IntrusiveHeap \<Rightarrow> HeapNode option" where
  "heap_top store h =
     (case List.map_filter store h of [] \<Rightarrow> None | n # ns \<Rightarrow> Some (best_node n ns))"

text \<open>The methods of heap.cc, over these.\<close>

record HeapSelector =
  heap_sign :: real
  update_count :: nat
  nodes :: "Key \<rightharpoonup> HeapNode"
  heap :: IntrusiveHeap

definition Heap_init :: "bool \<Rightarrow> HeapSelector" where
  "Heap_init min_heap =
     \<lparr>heap_sign = (if min_heap then 1 else -1), update_count = 0,
      nodes = Map.empty, heap = []\<rparr>"

definition Heap_Delete :: "HeapSelector \<Rightarrow> Key \<Rightarrow> Status \<times> HeapSelector" where
  "Heap_Delete s k =
     (case nodes s k of
        None \<Rightarrow> (InvalidArgumentError (StrCat_Key ''Key '' k '' not found.''), s)
      | Some node \<Rightarrow>
          (OkStatus, s\<lparr>heap := heap_Remove (heap s) k, nodes := (nodes s)(k := None)\<rparr>))"

definition Heap_Insert :: "HeapSelector \<Rightarrow> Key \<Rightarrow> real \<Rightarrow> Status \<times> HeapSelector" where
  "Heap_Insert s k p =
     (if nodes s k \<noteq> None
      then (InvalidArgumentError (StrCat_Key ''Key '' k '' already inserted.''), s)
      else (OkStatus,
            s\<lparr>nodes := (nodes s)(k \<mapsto>
                  \<lparr>node_key = k, priority = p * heap_sign s,
                   update_number = update_count s\<rparr>),
              update_count := update_count s + 1,
              heap := heap_Push (heap s) k\<rparr>))"

definition Heap_Update :: "HeapSelector \<Rightarrow> Key \<Rightarrow> real \<Rightarrow> Status \<times> HeapSelector" where
  "Heap_Update s k p =
     (case nodes s k of
        None \<Rightarrow> (InvalidArgumentError (StrCat_Key ''Key '' k '' not found.''), s)
      | Some node \<Rightarrow>
          (OkStatus,
           s\<lparr>nodes := (nodes s)(k \<mapsto>
                 node\<lparr>priority := p * heap_sign s, update_number := update_count s\<rparr>),
             update_count := update_count s + 1,
             heap := heap_Adjust (heap s) k\<rparr>))"

definition Heap_Sample :: "HeapSelector \<Rightarrow> KeyWithProbability option" where
  "Heap_Sample s =
     (if dom (nodes s) = {} then None
      else (case heap_top (nodes s) (heap s) of
              None \<Rightarrow> None
            | Some node \<Rightarrow> Some \<lparr>key = node_key node, probability = 1\<rparr>))"

definition Heap_Clear :: "HeapSelector \<Rightarrow> HeapSelector" where
  "Heap_Clear s = s\<lparr>nodes := Map.empty, heap := []\<rparr>"

fun Heap_apply :: "HeapSelector \<Rightarrow> SelectorOp \<Rightarrow> HeapSelector" where
  "Heap_apply s (Insert k p) = snd (Heap_Insert s k p)"
| "Heap_apply s (Delete k) = snd (Heap_Delete s k)"
| "Heap_apply s (Update k p) = snd (Heap_Update s k p)"
| "Heap_apply s Clear = Heap_Clear s"

definition Heap_run :: "bool \<Rightarrow> SelectorOp list \<Rightarrow> HeapSelector" where
  "Heap_run min_heap ops = foldl Heap_apply (Heap_init min_heap) ops"

subsection \<open>What a history of calls says about the keys\<close>

text \<open>
  Read off a sequence of calls alone, with no selector: the set of keys
  present after it, for each present key the position in the sequence of the
  Insert that brought it in, and for each present key the priority and the
  position of the last Insert or Update that named it.
\<close>

fun key_set_step :: "Key set \<Rightarrow> SelectorOp \<Rightarrow> Key set" where
  "key_set_step S (Insert k p) = insert k S"
| "key_set_step S (Delete k) = S - {k}"
| "key_set_step S (Update k p) = S"
| "key_set_step S Clear = {}"

definition key_set :: "SelectorOp list \<Rightarrow> Key set" where
  "key_set ops = foldl key_set_step {} ops"

fun insert_time_step :: "nat \<times> (Key \<rightharpoonup> nat) \<Rightarrow> SelectorOp \<Rightarrow> nat \<times> (Key \<rightharpoonup> nat)" where
  "insert_time_step (t, m) (Insert k p) = (Suc t, if m k = None then m(k \<mapsto> t) else m)"
| "insert_time_step (t, m) (Delete k) = (Suc t, m(k := None))"
| "insert_time_step (t, m) (Update k p) = (Suc t, m)"
| "insert_time_step (t, m) Clear = (Suc t, Map.empty)"

definition insert_time :: "SelectorOp list \<Rightarrow> Key \<rightharpoonup> nat" where
  "insert_time ops = snd (foldl insert_time_step (0, Map.empty) ops)"

fun last_update_step ::
  "nat \<times> (Key \<rightharpoonup> real \<times> nat) \<Rightarrow> SelectorOp \<Rightarrow> nat \<times> (Key \<rightharpoonup> real \<times> nat)" where
  "last_update_step (t, m) (Insert k p) = (Suc t, if m k = None then m(k \<mapsto> (p, t)) else m)"
| "last_update_step (t, m) (Delete k) = (Suc t, m(k := None))"
| "last_update_step (t, m) (Update k p) = (Suc t, if m k = None then m else m(k \<mapsto> (p, t)))"
| "last_update_step (t, m) Clear = (Suc t, Map.empty)"

definition last_update :: "SelectorOp list \<Rightarrow> Key \<rightharpoonup> real \<times> nat" where
  "last_update ops = snd (foldl last_update_step (0, Map.empty) ops)"

subsection \<open>Invariants of the selector states\<close>

text \<open>The dense array holds each key once, and the index map is its inverse.\<close>

definition uniform_inv :: "UniformSelector \<Rightarrow> bool" where
  "uniform_inv s \<longleftrightarrow>
     distinct (uniform_keys s) \<and>
     (\<forall>k i. uniform_key_to_index s k = Some i \<longleftrightarrow>
            i < length (uniform_keys s) \<and> uniform_keys s ! i = k)"

text \<open>
  For a list with its iterator map: node addresses are distinct and the map
  sends exactly the keys of the list to their nodes. Against the insertion
  times of a history: the list holds the present keys, and it is sorted by
  their insertion times in the given direction.
\<close>

definition keylist_inv :: "KeyList \<Rightarrow> (Key \<rightharpoonup> nat) \<Rightarrow> bool" where
  "keylist_inv xs m \<longleftrightarrow>
     distinct (map fst xs) \<and> (\<forall>k it. m k = Some it \<longleftrightarrow> (it, k) \<in> set xs)"

definition keylist_ordered ::
  "(nat \<Rightarrow> nat \<Rightarrow> bool) \<Rightarrow> KeyList \<Rightarrow> nat \<times> (Key \<rightharpoonup> nat) \<Rightarrow> bool" where
  "keylist_ordered ord xs tm \<longleftrightarrow>
     dom (snd tm) = snd ` set xs \<and>
     (\<forall>k s. snd tm k = Some s \<longrightarrow> s < fst tm) \<and>
     sorted_wrt (\<lambda>a b. ord (the (snd tm (snd a))) (the (snd tm (snd b)))) xs"

text \<open>
  For the heap selector against the last updates of a history: the heap holds
  pointers to exactly the nodes of the present keys, each node carries its
  key, the sign-adjusted priority last given for it and an update number
  below the counter, distinct nodes have distinct update numbers, and update
  numbers are ordered as the positions of the last updates are.
\<close>

definition heap_rel :: "HeapSelector \<Rightarrow> nat \<times> (Key \<rightharpoonup> real \<times> nat) \<Rightarrow> bool" where
  "heap_rel s tm \<longleftrightarrow>
     set (heap s) = dom (nodes s) \<and>
     dom (snd tm) = dom (nodes s) \<and>
     (\<forall>k n. nodes s k = Some n \<longrightarrow>
        node_key n = k \<and> update_number n < update_count s \<and>
        (\<exists>p \<tau>. snd tm k = Some (p, \<tau>) \<and> priority n = p * heap_sign s \<and> \<tau> < fst tm)) \<and>
     (\<forall>k k' n n'. nodes s k = Some n \<and> nodes s k' = Some n' \<and>
        update_number n = update_number n' \<longrightarrow> k = k') \<and>
     (\<forall>k k' n n' p p' \<tau> \<tau>'.
        nodes s k = Some n \<and> nodes s k' = Some n' \<and>
        snd tm k = Some (p, \<tau>) \<and> snd tm k' = Some (p', \<tau>') \<longrightarrow>
        (update_number n < update_number n' \<longleftrightarrow> \<tau> < \<tau>'))"

section \<open>The writer and its insert stream (writer_test.cc)\<close>

text \<open>
  Modelled from the spec: the writer itself (writer.cc) is not among the
  sources; its tests are, with the fake insert stream and the fake stub they
  run the writer against. The fake stream and stub are embedded from the
  tests. The writer follows the spec: an item is registered as pending and
  stays pending until it is transmitted; a transmission sends the chunks that
  pending items reference and that were not yet sent on the current stream,
  marks each as sent, and then sends the pending items; when the stream fails
  the writer closes it and, if its status is transient (Unavailable or
  Aborted), opens a new stream and transmits again, while any other status is
  returned to the caller. The moments at which the writer transmits (a chunk
  becomes complete, CreateItem with no partial chunk, Flush, Close) and the
  flag by which Close disables retries are those the tests fix; so is the
  call that returns an error, the one during which the write failed (the
  writer writes to the stream inside its public calls and keeps no error for
  a later call, and the items that were not written stay pending). Chunk keys
  are the positions of the chunks instead of random numbers; tensors, item
  keys, \<^verbatim>\<open>keep_chunk_keys\<close>, confirmations and the bound on items in flight
  are left out.
\<close>

type_synonym ChunkKey = nat

record WriterItem =
  item_table :: string
  item_priority :: real
  item_chunk_keys :: "ChunkKey list"
  item_offset :: nat
  item_length :: nat

datatype InsertStreamRequest = ChunkRequest ChunkKey | ItemRequest WriterItem

subsection \<open>FakeInsertStream and FakeStub\<close>

record FakeInsertStream =
  num_success_writes :: int
  bad_status :: Status

text \<open>\<^verbatim>\<open>Write\<close> and \<^verbatim>\<open>WritesDone\<close> answer
  \<^verbatim>\<open>num_success_writes_-- > 0\<close>; the request log that \<^verbatim>\<open>Write\<close> appends to
  is shared by all streams of a stub and kept with the writer below.\<close>

definition FakeInsertStream_Write :: "FakeInsertStream \<Rightarrow> bool \<times> FakeInsertStream" where
  "FakeInsertStream_Write s =
     (0 < num_success_writes s, s\<lparr>num_success_writes := num_success_writes s - 1\<rparr>)"

definition FakeInsertStream_WritesDone :: "FakeInsertStream \<Rightarrow> bool \<times> FakeInsertStream" where
  "FakeInsertStream_WritesDone s =
     (0 < num_success_writes s, s\<lparr>num_success_writes := num_success_writes s - 1\<rparr>)"

definition FakeInsertStream_Finish :: "FakeInsertStream \<Rightarrow> Status" where
  "FakeInsertStream_Finish s = (if 0 \<le> num_success_writes s then OkStatus else bad_status s)"

definition InternalError :: "string \<Rightarrow> Status" where
  "InternalError msg = \<lparr>code = kInternal, message = msg\<rparr>"

definition UnavailableError :: "string \<Rightarrow> Status" where
  "UnavailableError msg = \<lparr>code = kUnavailable, message = msg\<rparr>"

definition MakeGoodStub :: "FakeInsertStream list" where
  "MakeGoodStub = [\<lparr>num_success_writes = 10000, bad_status = InternalError ''''\<rparr>]"

definition MakeFlakyStub :: "int \<Rightarrow> nat \<Rightarrow> Status \<Rightarrow> FakeInsertStream list" where
  "MakeFlakyStub num_success num_fail error =
     \<lparr>num_success_writes = num_success, bad_status = error\<rparr> #
     replicate (num_fail - 1) \<lparr>num_success_writes = 0, bad_status = error\<rparr> @
     [\<lparr>num_success_writes = 10000, bad_status = InternalError ''''\<rparr>]"

subsection \<open>The writer\<close>

text \<open>
  The finished chunks are kept in the order they were cut, each as the
  position of its first timestep and its length; the key of a chunk is its
  place in that list, and the chunk being filled has the next key. The log
  \<open>requests\<close> is the vector the fake streams append to, each request
  written with the number of the stream it was written on.
\<close>

record Writer =
  chunk_length :: nat
  max_timesteps :: nat
  chunks :: "(nat \<times> nat) list"
  buffer :: nat
  pending_items :: "WriterItem list"
  streamed_chunk_keys :: "ChunkKey list"
  stream :: "FakeInsertStream option"
  stream_id :: nat
  stub_streams :: "FakeInsertStream list"
  requests :: "(nat \<times> InsertStreamRequest) list"
  writer_closed :: bool

definition Writer_new :: "FakeInsertStream list \<Rightarrow> nat \<Rightarrow> nat \<Rightarrow> Writer" where
  "Writer_new stub cl mt =
     \<lparr>chunk_length = cl, max_timesteps = mt, chunks = [], buffer = 0,
      pending_items = [], streamed_chunk_keys = [], stream = None, stream_id = 0,
      stub_streams = stub, requests = [], writer_closed = False\<rparr>"

definition IsTransient :: "Status \<Rightarrow> bool" where
  "IsTransient status = (code status = kUnavailable \<or> code status = kAborted)"

definition num_timesteps :: "Writer \<Rightarrow> nat" where
  "num_timesteps w = sum_list (map snd (chunks w)) + buffer w"

text \<open>The chunks with the one being filled, and the item over the last
  \<open>n\<close> timesteps.\<close>

definition chunk_bounds :: "Writer \<Rightarrow> (nat \<times> nat) list" where
  "chunk_bounds w =
     chunks w @ (if 0 < buffer w then [(sum_list (map snd (chunks w)), buffer w)] else [])"

definition make_item :: "Writer \<Rightarrow> string \<Rightarrow> nat \<Rightarrow> real \<Rightarrow> WriterItem" where
  "make_item w table n prio =
     (let first = num_timesteps w - n;
          keys = filter (\<lambda>i. first < fst (chunk_bounds w ! i) + snd (chunk_bounds w ! i))
                   [0 ..< length (chunk_bounds w)]
      in \<lparr>item_table = table, item_priority = prio, item_chunk_keys = keys,
          item_offset = first - fst (chunk_bounds w ! hd keys), item_length = n\<rparr>)"

text \<open>Writing on the open stream: the chunks of a list in turn, then the
  pending items in turn, stopping at the first write the stream refuses.\<close>

fun write_chunks :: "ChunkKey list \<Rightarrow> Writer \<Rightarrow> bool \<times> Writer" where
  "write_chunks [] w = (True, w)"
| "write_chunks (c # cs) w =
     (case stream w of
        None \<Rightarrow> (False, w)
      | Some s \<Rightarrow>
          (let written = FakeInsertStream_Write s;
               w1 = w\<lparr>stream := Some (snd written),
                       requests := requests w @ [(stream_id w, ChunkRequest c)]\<rparr>
           in if \<not> fst written then (False, w1)
              else write_chunks cs
                     (w1\<lparr>streamed_chunk_keys := streamed_chunk_keys w1 @ [c]\<rparr>)))"

fun write_items :: "WriterItem list \<Rightarrow> Writer \<Rightarrow> bool \<times> Writer" where
  "write_items [] w = (True, w)"
| "write_items (it # rest) w =
     (case stream w of
        None \<Rightarrow> (False, w)
      | Some s \<Rightarrow>
          (let written = FakeInsertStream_Write s;
               w1 = w\<lparr>stream := Some (snd written),
                       requests := requests w @ [(stream_id w, ItemRequest it)]\<rparr>
           in if \<not> fst written then (False, w1)
              else write_items rest (w1\<lparr>pending_items := rest\<rparr>)))"

definition unsent_chunks :: "Writer \<Rightarrow> ChunkKey list" where
  "unsent_chunks w =
     filter (\<lambda>c. c \<notin> set (streamed_chunk_keys w) \<and>
                 (\<exists>it \<in> set (pending_items w). c \<in> set (item_chunk_keys it)))
       [0 ..< length (chunks w)]"

text \<open>\<open>None\<close>: the stub has no stream left to hand out (the fake stub
  then reads the front of an empty list).\<close>

definition open_stream :: "Writer \<Rightarrow> Writer option" where
  "open_stream w =
     (case stream w of
        Some s \<Rightarrow> Some w
      | None \<Rightarrow>
          (case stub_streams w of
             [] \<Rightarrow> None
           | s # ss \<Rightarrow>
               Some (w\<lparr>stream := Some s, stub_streams := ss, streamed_chunk_keys := [],
                        stream_id := Suc (stream_id w)\<rparr>)))"

definition WritePendingData :: "Writer \<Rightarrow> (bool \<times> Writer) option" where
  "WritePendingData w =
     (case open_stream w of
        None \<Rightarrow> None
      | Some w1 \<Rightarrow>
          (let sent = write_chunks (unsent_chunks w1) w1
           in if \<not> fst sent then Some sent
              else Some (write_items (pending_items (snd sent)) (snd sent))))"

definition close_stream :: "Writer \<Rightarrow> Status \<times> Writer" where
  "close_stream w =
     (case stream w of
        None \<Rightarrow> (OkStatus, w)
      | Some s \<Rightarrow>
          (FakeInsertStream_Finish (snd (FakeInsertStream_WritesDone s)),
           w\<lparr>stream := None\<rparr>))"

text \<open>The writes leave the stub and the stream number alone, which bounds the
  number of streams a transmission can use.\<close>

lemma write_chunks_frame:
  "stub_streams (snd (write_chunks cs w)) = stub_streams w \<and>
   stream_id (snd (write_chunks cs w)) = stream_id w \<and>
   pending_items (snd (write_chunks cs w)) = pending_items w \<and>
   chunks (snd (write_chunks cs w)) = chunks w \<and>
   buffer (snd (write_chunks cs w)) = buffer w \<and>
   writer_closed (snd (write_chunks cs w)) = writer_closed w \<and>
   (stream w \<noteq> None \<longrightarrow> stream (snd (write_chunks cs w)) \<noteq> None)"
  by (induction cs arbitrary: w) (auto simp: Let_def split: option.splits)

lemma write_items_frame:
  "stub_streams (snd (write_items its w)) = stub_streams w \<and>
   stream_id (snd (write_items its w)) = stream_id w \<and>
   streamed_chunk_keys (snd (write_items its w)) = streamed_chunk_keys w \<and>
   chunks (snd (write_items its w)) = chunks w \<and>
   buffer (snd (write_items its w)) = buffer w \<and>
   writer_closed (snd (write_items its w)) = writer_closed w \<and>
   (stream w \<noteq> None \<longrightarrow> stream (snd (write_items its w)) \<noteq> None)"
  by (induction its arbitrary: w) (auto simp: Let_def split: option.splits)

definition retry_measure :: "Writer \<Rightarrow> nat" where
  "retry_measure w = 2 * length (stub_streams w) + (if stream w = None then 0 else 1)"

lemma WritePendingData_measure:
  assumes "WritePendingData w = Some r"
  shows "retry_measure (snd (close_stream (snd r))) < retry_measure w"
proof -
  obtain w1 where o: "open_stream w = Some w1" using assms
    by (auto simp: WritePendingData_def split: option.splits)
  have s1: "stream w1 \<noteq> None" and m1: "retry_measure w1 \<le> retry_measure w"
    using o by (auto simp: open_stream_def retry_measure_def split: option.splits list.splits)
  have r: "stub_streams (snd r) = stub_streams w1" "stream (snd r) \<noteq> None"
    using assms o s1 write_chunks_frame [of "unsent_chunks w1" w1]
      write_items_frame [of "pending_items (snd (write_chunks (unsent_chunks w1) w1))"
         "snd (write_chunks (unsent_chunks w1) w1)"]
    by (auto simp: WritePendingData_def Let_def split: if_splits)
  have "retry_measure (snd (close_stream (snd r))) < retry_measure w1"
    using r s1 by (auto simp: close_stream_def retry_measure_def split: option.splits)
  then show ?thesis using m1 by simp
qed

text \<open>
  \<^verbatim>\<open>WriteWithRetries\<close>: transmit; when the stream fails, close it and look at
  its status. With nothing pending there is nothing to transmit.
\<close>

function WriteWithRetries :: "bool \<Rightarrow> Writer \<Rightarrow> (Status \<times> Writer) option" where
  "WriteWithRetries retry w =
     (if pending_items w = [] then Some (OkStatus, w)
      else case WritePendingData w of
             None \<Rightarrow> None
           | Some r \<Rightarrow>
               if fst r then Some (OkStatus, snd r)
               else if IsTransient (fst (close_stream (snd r)))
                    then (if retry then WriteWithRetries retry (snd (close_stream (snd r)))
                          else Some (OkStatus, snd (close_stream (snd r))))
                    else Some (close_stream (snd r)))"
  by pat_completeness auto
termination
  by (relation "measure (\<lambda>(retry, w). retry_measure w)")
     (auto simp: WritePendingData_measure)

declare WriteWithRetries.simps [simp del]

text \<open>\<^verbatim>\<open>Finish\<close> cuts the chunk being filled, if any, and transmits.\<close>

definition Finish :: "bool \<Rightarrow> Writer \<Rightarrow> (Status \<times> Writer) option" where
  "Finish retry w =
     WriteWithRetries retry
       (if 0 < buffer w
        then w\<lparr>chunks := chunks w @ [(sum_list (map snd (chunks w)), buffer w)], buffer := 0\<rparr>
        else w)"

definition Writer_Append :: "Writer \<Rightarrow> (Status \<times> Writer) option" where
  "Writer_Append w =
     (if writer_closed w
      then Some (FailedPreconditionError ''Calling method Append after Close has been called'', w)
      else if chunk_length w \<le> Suc (buffer w)
           then Finish True (w\<lparr>buffer := Suc (buffer w)\<rparr>)
           else Some (OkStatus, w\<lparr>buffer := Suc (buffer w)\<rparr>))"

definition Writer_CreateItem ::
  "Writer \<Rightarrow> string \<Rightarrow> nat \<Rightarrow> real \<Rightarrow> (Status \<times> Writer) option" where
  "Writer_CreateItem w table n prio =
     (if writer_closed w
      then Some (FailedPreconditionError
                   ''Calling method CreateItem after Close has been called'', w)
      else if n = 0 \<or> num_timesteps w < n \<or> max_timesteps w < n
           then Some (InvalidArgumentError
                        ''The number of timesteps of an item must be within the buffer'', w)
           else if buffer w = 0
                then WriteWithRetries True
                       (w\<lparr>pending_items := pending_items w @ [make_item w table n prio]\<rparr>)
                else Some (OkStatus,
                           w\<lparr>pending_items := pending_items w @ [make_item w table n prio]\<rparr>))"

definition Writer_Flush :: "Writer \<Rightarrow> (Status \<times> Writer) option" where
  "Writer_Flush w =
     (if writer_closed w
      then Some (FailedPreconditionError ''Calling method Flush after Close has been called'', w)
      else if pending_items w = [] then Some (OkStatus, w)
           else Finish True w)"

definition Writer_Close :: "Writer \<Rightarrow> bool \<Rightarrow> (Status \<times> Writer) option" where
  "Writer_Close w retry_on_unavailable =
     (if writer_closed w
      then Some (FailedPreconditionError ''Calling method Close after Close has been called'', w)
      else case (if pending_items w = [] then Some (OkStatus, w)
                 else Finish retry_on_unavailable w) of
             None \<Rightarrow> None
           | Some r \<Rightarrow>
               if \<not> ok (fst r) then Some r
               else Some (OkStatus, (snd (close_stream (snd r)))\<lparr>writer_closed := True\<rparr>))"

datatype WriterOp = Append | CreateItem string nat real | Flush | Close bool

fun Writer_apply :: "Writer \<Rightarrow> WriterOp \<Rightarrow> (Status \<times> Writer) option" where
  "Writer_apply w Append = Writer_Append w"
| "Writer_apply w (CreateItem table n prio) = Writer_CreateItem w table n prio"
| "Writer_apply w Flush = Writer_Flush w"
| "Writer_apply w (Close retry) = Writer_Close w retry"

text \<open>A sequence of calls, with the statuses they return in order.\<close>

fun Writer_run :: "WriterOp list \<Rightarrow> Writer \<Rightarrow> (Status list \<times> Writer) option" where
  "Writer_run [] w = Some ([], w)"
| "Writer_run (op # ops) w =
     (case Writer_apply w op of
        None \<Rightarrow> None
      | Some r \<Rightarrow>
          (case Writer_run ops (snd r) of
             None \<Rightarrow> None
           | Some rs \<Rightarrow> Some (fst r # fst rs, snd rs)))"

text \<open>What the tests look at after a run: the codes of the returned statuses,
  the number of streams opened and the requests written.\<close>

definition run_summary ::
  "(Status list \<times> Writer) option \<Rightarrow>
     (StatusCode list \<times> nat \<times> (nat \<times> InsertStreamRequest) list) option" where
  "run_summary r = map_option (\<lambda>x. (map code (fst x), stream_id (snd x), requests (snd x))) r"

text \<open>The chunk keys written on one stream, in order; and a log in which every
  chunk request is for a chunk that an item written later, or an item still
  pending, refers to.\<close>

fun sent_on :: "nat \<Rightarrow> (nat \<times> InsertStreamRequest) list \<Rightarrow> ChunkKey list" where
  "sent_on sid [] = []"
| "sent_on sid ((s, ChunkRequest c) # rs) = (if s = sid then c # sent_on sid rs else sent_on sid rs)"
| "sent_on sid ((s, ItemRequest it) # rs) = sent_on sid rs"

fun items_of :: "(nat \<times> InsertStreamRequest) list \<Rightarrow> WriterItem list" where
  "items_of [] = []"
| "items_of ((s, ChunkRequest c) # rs) = items_of rs"
| "items_of ((s, ItemRequest it) # rs) = it # items_of rs"

definition referenced :: "WriterItem list \<Rightarrow> ChunkKey set" where
  "referenced its = (\<Union>it \<in> set its. set (item_chunk_keys it))"

fun chunks_needed :: "(nat \<times> InsertStreamRequest) list \<Rightarrow> WriterItem list \<Rightarrow> bool" where
  "chunks_needed [] pending = True"
| "chunks_needed ((s, ChunkRequest c) # rs) pending =
     (c \<in> referenced (items_of rs @ pending) \<and> chunks_needed rs pending)"
| "chunks_needed ((s, ItemRequest it) # rs) pending = chunks_needed rs pending"

text \<open>
  What holds of the log while the writer runs: no chunk key twice on one
  stream, nothing yet on streams not opened, every chunk request needed; and,
  while a stream is open, every chunk written on it is marked as sent.
\<close>

definition log_inv :: "Writer \<Rightarrow> bool" where
  "log_inv w \<longleftrightarrow>
     (\<forall>sid. distinct (sent_on sid (requests w))) \<and>
     (\<forall>sid. stream_id w < sid \<longrightarrow> sent_on sid (requests w) = []) \<and>
     chunks_needed (requests w) (pending_items w)"

definition writer_inv :: "Writer \<Rightarrow> bool" where
  "writer_inv w \<longleftrightarrow>
     log_inv w \<and>
     (stream w \<noteq> None \<longrightarrow>
        set (sent_on (stream_id w) (requests w)) \<subseteq> set (streamed_chunk_keys w))"

text \<open>
  Where a public call begins to write to the stream: \<open>cut_chunk\<close> is the cut
  that \<^verbatim>\<open>Finish\<close> makes, and \<open>transmission_start w call\<close> is the state in
  which the call, made in state \<open>w\<close>, starts to write its pending data, with
  \<open>None\<close> for a call that returns without writing (the writer is closed, the
  arguments are refused, no chunk became complete or nothing is pending).
\<close>

definition cut_chunk :: "Writer \<Rightarrow> Writer" where
  "cut_chunk w =
     (if 0 < buffer w
      then w\<lparr>chunks := chunks w @ [(sum_list (map snd (chunks w)), buffer w)], buffer := 0\<rparr>
      else w)"

fun transmission_start :: "Writer \<Rightarrow> WriterOp \<Rightarrow> Writer option" where
  "transmission_start w Append =
     (if \<not> writer_closed w \<and> chunk_length w \<le> Suc (buffer w) \<and> pending_items w \<noteq> []
      then Some (cut_chunk (w\<lparr>buffer := Suc (buffer w)\<rparr>)) else None)"
| "transmission_start w (CreateItem table n prio) =
     (if \<not> writer_closed w \<and> \<not> (n = 0 \<or> num_timesteps w < n \<or> max_timesteps w < n) \<and>
         buffer w = 0
      then Some (w\<lparr>pending_items := pending_items w @ [make_item w table n prio]\<rparr>)
      else None)"
| "transmission_start w Flush =
     (if \<not> writer_closed w \<and> pending_items w \<noteq> [] then Some (cut_chunk w) else None)"
| "transmission_start w (Close retry_on_unavailable) =
     (if \<not> writer_closed w \<and> pending_items w \<noteq> [] then Some (cut_chunk w) else None)"

text \<open>
  For the scenarios of the retry tests: the writer of those tests (chunk
  length 2, at most 10 timesteps, a stub whose first stream refuses every
  write and finishes with the given status) after some calls, and the writer
  as the first attempt of a call to write its pending data leaves it.
\<close>

definition writer_after :: "WriterOp list \<Rightarrow> Status \<Rightarrow> Writer" where
  "writer_after calls error =
     snd (the (Writer_run calls (Writer_new (MakeFlakyStub 0 1 error) 2 10)))"

definition failed_attempt :: "Writer \<Rightarrow> WriterOp \<Rightarrow> Writer" where
  "failed_attempt w call = snd (the (WritePendingData (the (transmission_start w call))))"

section \<open>Properties of errors.cc\<close>

lemma StrContains_iff:
  "StrContains hay needle \<longleftrightarrow> (\<exists>pre post. hay = pre @ needle @ post)"
proof (induction hay)
  case Nil
  then show ?case by auto
next
  case (Cons c cs)
  show ?case
  proof
    assume "StrContains (c # cs) needle"
    then consider "prefix needle (c # cs)" | "StrContains cs needle" by auto
    then show "\<exists>pre post. c # cs = pre @ needle @ post"
    proof cases
      case 1
      then obtain post where "c # cs = needle @ post" by (auto simp: prefix_def)
      then have "c # cs = [] @ needle @ post" by simp
      then show ?thesis by blast
    next
      case 2
      with Cons.IH obtain pre post where "cs = pre @ needle @ post" by blast
      then have "c # cs = (c # pre) @ needle @ post" by simp
      then show ?thesis by blast
    qed
  next
    assume "\<exists>pre post. c # cs = pre @ needle @ post"
    then obtain pre post where eq: "c # cs = pre @ needle @ post" by blast
    show "StrContains (c # cs) needle"
    proof (cases pre)
      case Nil
      with eq have "prefix needle (c # cs)" by (simp add: prefix_def)
      then show ?thesis by simp
    next
      case (Cons p ps)
      with eq have "cs = ps @ needle @ post" by simp
      with Cons.IH have "StrContains cs needle" by blast
      then show ?thesis by simp
    qed
  qed
qed

text \<open>
  C5. \<^verbatim>\<open>RateLimiterTimeout()\<close> is a DeadlineExceeded status whose message is the
  rate-limiter marker string; \<^verbatim>\<open>IsRateLimiterTimeout(s)\<close> is true exactly when
  \<open>s\<close> is a DeadlineExceeded status whose message contains the marker as a
  substring; so \<^verbatim>\<open>IsRateLimiterTimeout(RateLimiterTimeout())\<close> is true, a
  DeadlineExceeded status without the marker is not recognised, and neither
  is a status of another code that carries the marker text.
\<close>

theorem rate_limiter_timeout_recognised:
  "code RateLimiterTimeout = kDeadlineExceeded \<and>
   message RateLimiterTimeout = kTimeoutExceededErrorMessage \<and>
   IsRateLimiterTimeout s =
     (code s = kDeadlineExceeded \<and>
      (\<exists>pre post. message s = pre @ kTimeoutExceededErrorMessage @ post)) \<and>
   IsRateLimiterTimeout RateLimiterTimeout \<and>
   (code s1 = kDeadlineExceeded \<and>
    \<not> StrContains (message s1) kTimeoutExceededErrorMessage \<longrightarrow>
      \<not> IsRateLimiterTimeout s1) \<and>
   (code s2 \<noteq> kDeadlineExceeded \<and>
    StrContains (message s2) kTimeoutExceededErrorMessage \<longrightarrow>
      \<not> IsRateLimiterTimeout s2)"
proof -
  have a: "code RateLimiterTimeout = kDeadlineExceeded"
    by (simp add: RateLimiterTimeout_def DeadlineExceeded_def)
  have b: "message RateLimiterTimeout = kTimeoutExceededErrorMessage"
    by (simp add: RateLimiterTimeout_def DeadlineExceeded_def)
  have c: "IsRateLimiterTimeout s =
     (code s = kDeadlineExceeded \<and>
      (\<exists>pre post. message s = pre @ kTimeoutExceededErrorMessage @ post))"
    by (simp add: IsRateLimiterTimeout_def IsDeadlineExceeded_def StrContains_iff)
  have "message RateLimiterTimeout = [] @ kTimeoutExceededErrorMessage @ []"
    using b by simp
  then have d: "IsRateLimiterTimeout RateLimiterTimeout"
    unfolding IsRateLimiterTimeout_def IsDeadlineExceeded_def StrContains_iff
    using a by blast
  have e: "code s1 = kDeadlineExceeded \<and>
    \<not> StrContains (message s1) kTimeoutExceededErrorMessage \<longrightarrow>
      \<not> IsRateLimiterTimeout s1"
    by (simp add: IsRateLimiterTimeout_def)
  have f: "code s2 \<noteq> kDeadlineExceeded \<and>
    StrContains (message s2) kTimeoutExceededErrorMessage \<longrightarrow>
      \<not> IsRateLimiterTimeout s2"
    by (simp add: IsRateLimiterTimeout_def IsDeadlineExceeded_def)
  from a b c d e f show ?thesis by blast
qed

theorem rate_limiter_timeout_recognised_witness:
  "code (DeadlineExceeded ''Deadline exceeded'') = kDeadlineExceeded \<and>
   \<not> StrContains (message (DeadlineExceeded ''Deadline exceeded''))
         kTimeoutExceededErrorMessage \<and>
   \<not> IsRateLimiterTimeout (DeadlineExceeded ''Deadline exceeded'') \<and>
   code (Cancelled kTimeoutExceededErrorMessage) \<noteq> kDeadlineExceeded \<and>
   StrContains (message (Cancelled kTimeoutExceededErrorMessage))
         kTimeoutExceededErrorMessage \<and>
   \<not> IsRateLimiterTimeout (Cancelled kTimeoutExceededErrorMessage)"
  using rate_limiter_timeout_recognised
    [of RateLimiterTimeout "DeadlineExceeded ''Deadline exceeded''"
        "Cancelled kTimeoutExceededErrorMessage"]
  by (simp add: DeadlineExceeded_def Cancelled_def kTimeoutExceededErrorMessage_def)

section \<open>Properties of GetNextInternal\<close>

lemma finish_dispatch:
  assumes "\<not> ok (sampler_status env)" "\<not> registered env \<or> deregistered env"
  shows "GetNextInternal_finish cfg env step =
     (if Duration_less (rate_limiter_timeout cfg) InfiniteDuration \<and>
         IsRateLimiterTimeout (sampler_status env)
      then \<lparr>returned = OkStatus, end_of_sequence = Some True,
         step_within_sample = step, sampler_closed = (\<not> registered env)\<rparr>
      else \<lparr>returned = sampler_status env, end_of_sequence = None,
         step_within_sample = step, sampler_closed = (\<not> registered env)\<rparr>)"
  using assms by (auto simp: GetNextInternal_finish_def Let_def)

lemma Duration_less_Infinite: "Duration_less d InfiniteDuration \<longleftrightarrow> d \<noteq> InfiniteDuration"
  by (cases d) simp_all

lemma GetNextInternal_reaches_finish:
  assumes "\<not> emit_timesteps cfg \<or>
       (\<not> (last_timestep env \<and> sequence_length cfg > 0 \<and> step0 + 1 \<noteq> sequence_length cfg) \<and>
        \<not> (step0 + 1 = sequence_length cfg \<and> \<not> last_timestep env))"
  shows "GetNextInternal cfg step0 env =
     GetNextInternal_finish cfg env
       (if emit_timesteps cfg then (if last_timestep env then 0 else step0 + 1) else step0)"
  using assms by (auto simp: GetNextInternal_def Let_def)

text \<open>
  C6 (amended). When the sampler returns a non-OK status and
  \<^verbatim>\<open>GetNextInternal\<close> reaches its final status dispatch, that is the
  cancellation callback was not registered or was deregistered successfully
  and no sequence-length error was returned first, the iterator returns OK
  with \<^verbatim>\<open>*end_of_sequence = true\<close> exactly when the configured
  \<^verbatim>\<open>rate_limiter_timeout\<close> is not the infinite duration and the status is a
  rate-limiter timeout; in every other case the sampler's status is returned
  unchanged, so with the infinite timeout a rate-limiter timeout is surfaced
  as an error too.
\<close>

theorem GetNextInternal_non_ok_dispatch:
  assumes non_ok: "\<not> ok (sampler_status env)"
    and not_cancelled: "\<not> registered env \<or> deregistered env"
    and no_length_error: "\<not> emit_timesteps cfg \<or>
       (\<not> (last_timestep env \<and> sequence_length cfg > 0 \<and> step0 + 1 \<noteq> sequence_length cfg) \<and>
        \<not> (step0 + 1 = sequence_length cfg \<and> \<not> last_timestep env))"
  shows "((returned (GetNextInternal cfg step0 env) = OkStatus \<and>
           end_of_sequence (GetNextInternal cfg step0 env) = Some True) \<longleftrightarrow>
          (rate_limiter_timeout cfg \<noteq> InfiniteDuration \<and>
           IsRateLimiterTimeout (sampler_status env))) \<and>
         (\<not> (rate_limiter_timeout cfg \<noteq> InfiniteDuration \<and>
             IsRateLimiterTimeout (sampler_status env)) \<longrightarrow>
          returned (GetNextInternal cfg step0 env) = sampler_status env \<and>
          end_of_sequence (GetNextInternal cfg step0 env) = None)"
proof -
  have neq: "sampler_status env \<noteq> OkStatus"
    using non_ok by (auto simp: ok_def OkStatus_def)
  show ?thesis
    unfolding GetNextInternal_reaches_finish [OF no_length_error]
      finish_dispatch [OF non_ok not_cancelled] Duration_less_Infinite
    using neq by simp
qed

theorem GetNextInternal_non_ok_dispatch_witness:
  "returned (GetNextInternal
      \<lparr>rate_limiter_timeout = Milliseconds 100, sequence_length = 3, emit_timesteps = True\<rparr> 0
      \<lparr>registered = True, sampler_status = RateLimiterTimeout, last_timestep = False,
       deregistered = True\<rparr>) = OkStatus \<and>
   end_of_sequence (GetNextInternal
      \<lparr>rate_limiter_timeout = Milliseconds 100, sequence_length = 3, emit_timesteps = True\<rparr> 0
      \<lparr>registered = True, sampler_status = RateLimiterTimeout, last_timestep = False,
       deregistered = True\<rparr>) = Some True \<and>
   returned (GetNextInternal
      \<lparr>rate_limiter_timeout = InfiniteDuration, sequence_length = -1, emit_timesteps = False\<rparr> 0
      \<lparr>registered = False, sampler_status = RateLimiterTimeout, last_timestep = False,
       deregistered = False\<rparr>) = RateLimiterTimeout"
  using GetNextInternal_non_ok_dispatch
    [of "\<lparr>registered = True, sampler_status = RateLimiterTimeout, last_timestep = False,
       deregistered = True\<rparr>"
       "\<lparr>rate_limiter_timeout = Milliseconds 100, sequence_length = 3, emit_timesteps = True\<rparr>" 0]
    GetNextInternal_non_ok_dispatch
    [of "\<lparr>registered = False, sampler_status = RateLimiterTimeout, last_timestep = False,
       deregistered = False\<rparr>"
       "\<lparr>rate_limiter_timeout = InfiniteDuration, sequence_length = -1, emit_timesteps = False\<rparr>" 0]
  by (simp add: ok_def RateLimiterTimeout_def DeadlineExceeded_def IsRateLimiterTimeout_def
      IsDeadlineExceeded_def kTimeoutExceededErrorMessage_def)

text \<open>
  The claim as first stated does not hold of the code: when the iterator
  context is cancelled during the call (the callback was registered and can
  no longer be deregistered), a non-OK sampler status is replaced by
  \<^verbatim>\<open>Cancelled\<close>.
\<close>

theorem GetNextInternal_cancelled_counterexample:
  "\<not> ok \<lparr>code = kUnavailable, message = ''connection lost''\<rparr> \<and>
   \<not> IsRateLimiterTimeout \<lparr>code = kUnavailable, message = ''connection lost''\<rparr> \<and>
   returned (GetNextInternal
      \<lparr>rate_limiter_timeout = InfiniteDuration, sequence_length = -1, emit_timesteps = False\<rparr> 0
      \<lparr>registered = True,
       sampler_status = \<lparr>code = kUnavailable, message = ''connection lost''\<rparr>,
       last_timestep = False, deregistered = False\<rparr>)
     = Cancelled ''Iterator context was cancelled'' \<and>
   Cancelled ''Iterator context was cancelled''
     \<noteq> \<lparr>code = kUnavailable, message = ''connection lost''\<rparr>"
  by (simp add: GetNextInternal_def GetNextInternal_finish_def ok_def Cancelled_def
      IsRateLimiterTimeout_def IsDeadlineExceeded_def)

text \<open>
  The sequence-length checks run before the sampler's status is looked at:
  with \<^verbatim>\<open>sequence_length = 1\<close> a rate-limiter timeout at the first timestep
  is answered by \<^verbatim>\<open>InvalidArgument\<close>.
\<close>

lemma GetNextInternal_length_check_precedes_status:
  "returned (GetNextInternal
      \<lparr>rate_limiter_timeout = Milliseconds 100, sequence_length = 1, emit_timesteps = True\<rparr> 0
      \<lparr>registered = True, sampler_status = RateLimiterTimeout, last_timestep = False,
       deregistered = True\<rparr>)
   = InvalidArgumentError
       ''Received sequence did not terminate after expected number of steps (1).''"
  by (simp add: GetNextInternal_def string_of_int_def)

section \<open>Properties of the WeakCellRef bindings\<close>

lemma raise_expired_access_error:
  "MaybeRaiseFromStatus expired_access_error =
     Some \<lparr>exc = PyExc_RuntimeError,
           what = ''Cannot access data from expired WeakCellRef''\<rparr>"
  by (simp add: MaybeRaiseFromStatus_def expired_access_error_def
      FailedPreconditionError_def ok_def)

lemma MaybeRaiseFromStatus_None: "MaybeRaiseFromStatus status = None \<longleftrightarrow> ok status"
  by (simp add: MaybeRaiseFromStatus_def)

lemma MaybeRaiseFromStatus_Some: "MaybeRaiseFromStatus status = Some e \<Longrightarrow> \<not> ok status"
  by (simp add: MaybeRaiseFromStatus_def split: if_splits)

lemma MaybeRaiseFromStatus_what:
  "\<not> ok status \<Longrightarrow> what (the (MaybeRaiseFromStatus status)) = message status"
  by (simp add: MaybeRaiseFromStatus_def)

text \<open>
  C9. On a WeakCellRef whose CellRef has expired, each of the accessors numpy,
  shape and dtype only tries to upgrade the reference and then raises from a
  FailedPrecondition status (a Python exception carrying its message),
  without calling into the CellRef. On a live reference each accessor first
  upgrades it and only then reads through the strong reference, and what it
  answers is what it read: numpy calls \<^verbatim>\<open>GetData\<close> and returns the tensor
  it was given; shape calls \<^verbatim>\<open>GetSpec\<close> and returns the dimensions of the
  spec, \<open>None\<close> for \<open>-1\<close> and otherwise the size converted to a 32-bit
  integer; dtype calls \<^verbatim>\<open>GetSpec\<close> and returns the descriptor of the dtype
  of the spec. Each raises instead when the call on the reference (or the
  lookup of the descriptor) answers a status that is not OK, and the exception
  carries the message of that status.
\<close>

theorem WeakCellRef_access_upgrades_first:
  assumes gone: "expired r1" and live: "ref r2 = Some sp"
  shows "code expired_access_error = kFailedPrecondition \<and>
         MaybeRaiseFromStatus expired_access_error \<noteq> None \<and>
         numpy empty_tensor r1 = ([CallLock], Inl (the (MaybeRaiseFromStatus expired_access_error))) \<and>
         shape_accessor r1 = ([CallLock], Inl (the (MaybeRaiseFromStatus expired_access_error))) \<and>
         dtype_accessor descr_of no_dtype r1
           = ([CallLock], Inl (the (MaybeRaiseFromStatus expired_access_error))) \<and>
         numpy empty_tensor r2 =
           ([CallLock, CallGetData],
            if ok (fst (GetData sp)) then Inr (snd (GetData sp))
            else Inl (the (MaybeRaiseFromStatus (fst (GetData sp))))) \<and>
         shape_accessor r2 =
           ([CallLock, CallGetSpec],
            if ok (fst (GetSpec sp))
            then Inr (map (\<lambda>dim. if dim = -1 then None else Some (scast dim))
                        (shape (snd (GetSpec sp))))
            else Inl (the (MaybeRaiseFromStatus (fst (GetSpec sp))))) \<and>
         dtype_accessor descr_of no_dtype r2 =
           ([CallLock, CallGetSpec],
            if \<not> ok (fst (GetSpec sp))
            then Inl (the (MaybeRaiseFromStatus (fst (GetSpec sp))))
            else if \<not> ok (fst (descr_of (dtype (snd (GetSpec sp)))))
                 then Inl (the (MaybeRaiseFromStatus (fst (descr_of (dtype (snd (GetSpec sp)))))))
                 else Inr (snd (descr_of (dtype (snd (GetSpec sp)))))) \<and>
         (\<forall>status. \<not> ok status \<longrightarrow>
            MaybeRaiseFromStatus status \<noteq> None \<and>
            what (the (MaybeRaiseFromStatus status)) = message status)"
proof -
  have r1: "lock r1 = None" using gone by (simp add: expired_def lock_def)
  have r2: "lock r2 = Some sp" using live by (simp add: lock_def)
  have a: "code expired_access_error = kFailedPrecondition"
    by (simp add: expired_access_error_def FailedPreconditionError_def)
  have b: "numpy empty_tensor r1
      = ([CallLock], Inl (the (MaybeRaiseFromStatus expired_access_error)))"
    by (simp add: numpy_def r1 raise_expired_access_error)
  have c: "shape_accessor r1
      = ([CallLock], Inl (the (MaybeRaiseFromStatus expired_access_error)))"
    by (simp add: shape_accessor_def r1 raise_expired_access_error)
  have d: "dtype_accessor descr_of no_dtype r1
      = ([CallLock], Inl (the (MaybeRaiseFromStatus expired_access_error)))"
    by (simp add: dtype_accessor_def r1 raise_expired_access_error)
  have e: "MaybeRaiseFromStatus expired_access_error \<noteq> None"
    by (simp add: raise_expired_access_error)
  have f: "numpy empty_tensor r2 =
           ([CallLock, CallGetData],
            if ok (fst (GetData sp)) then Inr (snd (GetData sp))
            else Inl (the (MaybeRaiseFromStatus (fst (GetData sp)))))"
    by (cases "GetData sp")
       (auto simp: numpy_def r2 MaybeRaiseFromStatus_None split: option.splits
          dest: MaybeRaiseFromStatus_Some)
  have g: "shape_accessor r2 =
           ([CallLock, CallGetSpec],
            if ok (fst (GetSpec sp))
            then Inr (map (\<lambda>dim. if dim = -1 then None else Some (scast dim))
                        (shape (snd (GetSpec sp))))
            else Inl (the (MaybeRaiseFromStatus (fst (GetSpec sp)))))"
    by (cases "GetSpec sp")
       (auto simp: shape_accessor_def r2 Let_def MaybeRaiseFromStatus_None split: option.splits
          dest: MaybeRaiseFromStatus_Some)
  have h: "dtype_accessor descr_of no_dtype r2 =
           ([CallLock, CallGetSpec],
            if \<not> ok (fst (GetSpec sp))
            then Inl (the (MaybeRaiseFromStatus (fst (GetSpec sp))))
            else if \<not> ok (fst (descr_of (dtype (snd (GetSpec sp)))))
                 then Inl (the (MaybeRaiseFromStatus (fst (descr_of (dtype (snd (GetSpec sp)))))))
                 else Inr (snd (descr_of (dtype (snd (GetSpec sp))))))"
  proof (cases "GetSpec sp")
    case (Pair status0 spec)
    show ?thesis
    proof (cases "descr_of (dtype spec)")
      case inner: (Pair status1 descr)
      show ?thesis
        using Pair inner
        by (auto simp: dtype_accessor_def r2 Let_def MaybeRaiseFromStatus_None
            split: option.splits dest: MaybeRaiseFromStatus_Some)
    qed
  qed
  have i: "\<forall>status. \<not> ok status \<longrightarrow>
            MaybeRaiseFromStatus status \<noteq> None \<and>
            what (the (MaybeRaiseFromStatus status)) = message status"
    by (simp add: MaybeRaiseFromStatus_None MaybeRaiseFromStatus_what)
  from a b c d e f g h i show ?thesis by blast
qed

theorem WeakCellRef_access_upgrades_first_witness:
  "numpy (0::nat) \<lparr>ref = (None :: (nat, nat) CellRef option)\<rparr>
     = ([CallLock], Inl \<lparr>exc = PyExc_RuntimeError,
                         what = ''Cannot access data from expired WeakCellRef''\<rparr>) \<and>
   shape_accessor \<lparr>ref = (None :: (nat, nat) CellRef option)\<rparr>
     = ([CallLock], Inl \<lparr>exc = PyExc_RuntimeError,
                         what = ''Cannot access data from expired WeakCellRef''\<rparr>) \<and>
   dtype_accessor (\<lambda>d::nat. (OkStatus, Suc d)) (0::nat)
       \<lparr>ref = (None :: (nat, nat) CellRef option)\<rparr>
     = ([CallLock], Inl \<lparr>exc = PyExc_RuntimeError,
                         what = ''Cannot access data from expired WeakCellRef''\<rparr>) \<and>
   numpy (0::nat)
     \<lparr>ref = Some \<lparr>GetData = (OkStatus, 7::nat),
                   GetSpec = (OkStatus, \<lparr>dtype = 3::nat,
                                          shape = [4294967297, 4294967295, -1, 5]\<rparr>)\<rparr>\<rparr>
     = ([CallLock, CallGetData], Inr 7) \<and>
   shape_accessor
     \<lparr>ref = Some \<lparr>GetData = (OkStatus, 7::nat),
                   GetSpec = (OkStatus, \<lparr>dtype = 3::nat,
                                          shape = [4294967297, 4294967295, -1, 5]\<rparr>)\<rparr>\<rparr>
     = ([CallLock, CallGetSpec], Inr [Some 1, Some (-1), None, Some 5]) \<and>
   dtype_accessor (\<lambda>d::nat. (OkStatus, Suc d)) (0::nat)
     \<lparr>ref = Some \<lparr>GetData = (OkStatus, 7::nat),
                   GetSpec = (OkStatus, \<lparr>dtype = 3::nat,
                                          shape = [4294967297, 4294967295, -1, 5]\<rparr>)\<rparr>\<rparr>
     = ([CallLock, CallGetSpec], Inr 4)"
proof -
  have no_raise: "MaybeRaiseFromStatus OkStatus = None" "ok OkStatus"
    by (simp_all add: MaybeRaiseFromStatus_def ok_def OkStatus_def)
  show ?thesis
    using WeakCellRef_access_upgrades_first
      [of "\<lparr>ref = (None :: (nat, nat) CellRef option)\<rparr>"
          "\<lparr>ref = Some \<lparr>GetData = (OkStatus, 7::nat),
                     GetSpec = (OkStatus, \<lparr>dtype = 3::nat,
                                            shape = [4294967297, 4294967295, -1, 5]\<rparr>)\<rparr>\<rparr>"
          "\<lparr>GetData = (OkStatus, 7::nat),
            GetSpec = (OkStatus, \<lparr>dtype = 3::nat,
                                   shape = [4294967297, 4294967295, -1, 5]\<rparr>)\<rparr>"
          "0::nat" "\<lambda>d::nat. (OkStatus, Suc d)" "0::nat"]
    by (simp add: expired_def raise_expired_access_error no_raise)
qed

text \<open>On a live reference whose \<^verbatim>\<open>GetSpec\<close> fails, shape and dtype raise
  with the message of that status.\<close>

lemma WeakCellRef_failed_GetSpec_raises:
  "shape_accessor
     \<lparr>ref = Some \<lparr>GetData = (OkStatus, 7::nat),
                   GetSpec = (InvalidArgumentError ''no spec'',
                              \<lparr>dtype = 3::nat, shape = [2]\<rparr>)\<rparr>\<rparr>
     = ([CallLock, CallGetSpec], Inl \<lparr>exc = PyExc_ValueError, what = ''no spec''\<rparr>) \<and>
   dtype_accessor (\<lambda>d::nat. (OkStatus, Suc d)) (0::nat)
     \<lparr>ref = Some \<lparr>GetData = (OkStatus, 7::nat),
                   GetSpec = (InvalidArgumentError ''no spec'',
                              \<lparr>dtype = 3::nat, shape = [2]\<rparr>)\<rparr>\<rparr>
     = ([CallLock, CallGetSpec], Inl \<lparr>exc = PyExc_ValueError, what = ''no spec''\<rparr>)"
  by (simp add: shape_accessor_def dtype_accessor_def lock_def MaybeRaiseFromStatus_def
      InvalidArgumentError_def ok_def Let_def)

section \<open>Properties of the uniform selector\<close>

lemma uniform_inv_dom: "uniform_inv s \<Longrightarrow> dom (uniform_key_to_index s) = set (uniform_keys s)"
  unfolding uniform_inv_def by (auto simp: in_set_conv_nth dom_def)

lemma uniform_inv_init: "uniform_inv Uniform_init"
  by (simp add: uniform_inv_def Uniform_init_def)

lemma uniform_inv_Clear: "uniform_inv (Uniform_Clear s)"
  by (simp add: uniform_inv_def Uniform_Clear_def)

lemma uniform_inv_Update: "uniform_inv s \<Longrightarrow> uniform_inv (snd (Uniform_Update s k p))"
  by (simp add: Uniform_Update_def)

lemma uniform_inv_Insert:
  assumes "uniform_inv s" shows "uniform_inv (snd (Uniform_Insert s k p))"
proof (cases "uniform_key_to_index s k")
  case (Some i)
  then show ?thesis using assms by (simp add: Uniform_Insert_def emplace_def Let_def)
next
  case None
  then have notin: "k \<notin> set (uniform_keys s)"
    using uniform_inv_dom [OF assms] by (metis domIff)
  have st: "snd (Uniform_Insert s k p) =
      \<lparr>uniform_keys = uniform_keys s @ [k],
       uniform_key_to_index = (uniform_key_to_index s)(k \<mapsto> length (uniform_keys s))\<rparr>"
    using None by (simp add: Uniform_Insert_def emplace_def Let_def)
  have fresh: "\<And>i. i < length (uniform_keys s) \<Longrightarrow> uniform_keys s ! i \<noteq> k"
    using notin nth_mem by metis
  have old: "\<And>k' i. uniform_key_to_index s k' = Some i \<longleftrightarrow>
                i < length (uniform_keys s) \<and> uniform_keys s ! i = k'"
    using assms by (simp add: uniform_inv_def)
  have d: "distinct (uniform_keys s)" using assms by (simp add: uniform_inv_def)
  show ?thesis
    unfolding st uniform_inv_def using notin d fresh
    by (auto simp: old nth_append less_Suc_eq)
qed

lemma uniform_inv_Delete:
  assumes inv: "uniform_inv s" shows "uniform_inv (snd (Uniform_Delete s k))"
proof (cases "uniform_key_to_index s k")
  case None
  then show ?thesis using inv by (simp add: Uniform_Delete_def)
next
  case (Some i)
  define ks where "ks = uniform_keys s"
  define m where "m = uniform_key_to_index s"
  define n where "n = length ks"
  have old: "\<And>k' j. m k' = Some j \<longleftrightarrow> j < n \<and> ks ! j = k'"
    using inv by (simp add: uniform_inv_def ks_def m_def n_def)
  have d: "distinct ks" using inv by (simp add: uniform_inv_def ks_def)
  have i: "i < n" "ks ! i = k" using Some old by (auto simp: m_def)
  then have ne: "ks \<noteq> []" by (auto simp: n_def)
  have lastn: "last ks = ks ! (n - 1)" using ne by (simp add: last_conv_nth n_def)
  have inj: "\<And>a b. a < n \<Longrightarrow> b < n \<Longrightarrow> ks ! a = ks ! b \<Longrightarrow> a = b"
    using d by (simp add: nth_eq_iff_index_eq n_def)
  show ?thesis
  proof (cases "i = n - 1")
    case True
    have st: "snd (Uniform_Delete s k) =
        \<lparr>uniform_keys = butlast ks, uniform_key_to_index = m(k := None)\<rparr>"
      using Some True by (simp add: Uniform_Delete_def Let_def ks_def m_def n_def)
    have "(m(k := None)) k' = Some j \<longleftrightarrow>
             j < length (butlast ks) \<and> butlast ks ! j = k'" for k' j
    proof (cases "j < n - 1")
      case less: True
      then have b: "butlast ks ! j = ks ! j" by (simp add: nth_butlast n_def)
      have "ks ! j \<noteq> k" using inj [of j "n - 1"] i True less by auto
      then show ?thesis using less b old [of k' j] by (auto simp: n_def)
    next
      case geq: False
      have "m k' = Some j \<Longrightarrow> k' = k"
      proof -
        assume "m k' = Some j"
        then have "j < n" "ks ! j = k'" using old by auto
        then have "j = n - 1" using geq by simp
        then show "k' = k" using \<open>ks ! j = k'\<close> i True by simp
      qed
      then show ?thesis using geq by (auto simp: n_def)
    qed
    then show ?thesis unfolding st uniform_inv_def using d by (simp add: distinct_butlast)
  next
    case False
    have st: "snd (Uniform_Delete s k) =
        \<lparr>uniform_keys = butlast (ks[i := last ks]),
         uniform_key_to_index = (m(k := None))(last ks \<mapsto> i)\<rparr>"
      using Some False by (simp add: Uniform_Delete_def Let_def ks_def m_def n_def)
    define new where "new = butlast (ks[i := last ks])"
    have npos: "n - 1 < n" using i by simp
    have lk: "ks ! (n - 1) \<noteq> k" using False i inj [of i "n - 1"] npos by auto
    have nth: "new ! j = (if j = i then ks ! (n - 1) else ks ! j)" if "j < n - 1" for j
      using that i lastn by (simp add: new_def nth_butlast n_def nth_list_update)
    have len: "length new = n - 1" by (simp add: new_def n_def)
    have dist: "distinct new"
      unfolding distinct_conv_nth len
    proof (intro allI impI)
      fix a b assume ab: "a < n - 1" "b < n - 1" "a \<noteq> b"
      then have lt: "a < n" "b < n" by auto
      have 1: "ks ! a \<noteq> ks ! b" using inj [OF lt] ab by auto
      have 2: "ks ! (n - 1) \<noteq> ks ! b" using inj [OF npos lt(2)] ab by auto
      have 3: "ks ! a \<noteq> ks ! (n - 1)" using inj [OF lt(1) npos] ab by auto
      show "new ! a \<noteq> new ! b"
        using nth [OF ab(1)] nth [OF ab(2)] ab 1 2 3 by (auto split: if_splits)
    qed
    have "((m(k := None))(last ks \<mapsto> i)) k' = Some j \<longleftrightarrow>
             j < n - 1 \<and> new ! j = k'" for k' j
    proof (cases "k' = ks ! (n - 1)")
      case True
      have "j = i" if j: "j < n - 1" "new ! j = ks ! (n - 1)"
      proof (rule ccontr)
        assume "j \<noteq> i"
        then have "ks ! j = ks ! (n - 1)" using nth [OF j(1)] j(2) by simp
        moreover have "j < n" using j by simp
        ultimately have "j = n - 1" using inj [of j "n - 1"] npos by blast
        then show False using j by simp
      qed
      moreover have "i < n - 1" using i False by simp
      moreover have "new ! i = ks ! (n - 1)" using nth [of i] \<open>i < n - 1\<close> by simp
      ultimately show ?thesis using True lastn by auto
    next
      case nl: False
      show ?thesis
      proof (cases "k' = k")
        case True
        have "new ! j \<noteq> k" if j: "j < n - 1"
        proof (cases "j = i")
          case True
          then show ?thesis using nth [OF j] lk by simp
        next
          case ji: False
          have "j < n" using j by simp
          then have "ks ! j \<noteq> ks ! i" using inj [of j i] i ji by blast
          then show ?thesis using nth [OF j] ji i by simp
        qed
        then show ?thesis using True nl lastn by auto
      next
        case nk: False
        have "m k' = Some j \<longleftrightarrow> j < n - 1 \<and> new ! j = k'"
        proof
          assume "m k' = Some j"
          then have j: "j < n" "ks ! j = k'" using old by auto
          then have "j \<noteq> n - 1" "j \<noteq> i" using nl nk i by auto
          then have "j < n - 1" using j by simp
          then show "j < n - 1 \<and> new ! j = k'" using nth [of j] \<open>j \<noteq> i\<close> j by simp
        next
          assume r: "j < n - 1 \<and> new ! j = k'"
          then have "j \<noteq> i" using nth [of j] nl by auto
          then have "ks ! j = k'" using nth [of j] r by simp
          then show "m k' = Some j" using old r by auto
        qed
        then show ?thesis using nl nk lastn by auto
      qed
    qed
    then show ?thesis unfolding st uniform_inv_def using dist len by (simp add: new_def)
  qed
qed

lemma uniform_inv_apply: "uniform_inv s \<Longrightarrow> uniform_inv (Uniform_apply s op)"
  by (cases op) (simp_all add: uniform_inv_Insert uniform_inv_Delete uniform_inv_Update
      uniform_inv_Clear)

lemma uniform_inv_foldl: "uniform_inv s \<Longrightarrow> uniform_inv (foldl Uniform_apply s ops)"
  by (induction ops arbitrary: s) (simp_all add: uniform_inv_apply)

lemma uniform_inv_run: "uniform_inv (Uniform_run ops)"
  by (simp add: Uniform_run_def uniform_inv_foldl uniform_inv_init)

lemma uniform_dom_apply:
  assumes inv: "uniform_inv s"
  shows "dom (uniform_key_to_index (Uniform_apply s op)) =
           key_set_step (dom (uniform_key_to_index s)) op"
proof (cases op)
  case (Insert k p)
  then show ?thesis
    by (auto simp: Uniform_Insert_def emplace_def Let_def split: option.splits)
next
  case (Delete k)
  show ?thesis
  proof (cases "uniform_key_to_index s k")
    case None
    then show ?thesis using Delete by (auto simp: Uniform_Delete_def)
  next
    case (Some i)
    define ks where "ks = uniform_keys s"
    have old: "\<And>k' j. uniform_key_to_index s k' = Some j \<longleftrightarrow> j < length ks \<and> ks ! j = k'"
      using inv by (simp add: uniform_inv_def ks_def)
    have i: "i < length ks" "ks ! i = k" using Some old by auto
    then have ne: "ks \<noteq> []" by auto
    have l: "uniform_key_to_index s (last ks) = Some (length ks - 1)"
      using old [of "last ks" "length ks - 1"] ne by (simp add: last_conv_nth)
    have "i \<noteq> length ks - 1 \<Longrightarrow> last ks \<noteq> k" using l Some by auto
    then show ?thesis
      using Delete Some l by (auto simp: Uniform_Delete_def Let_def ks_def)
  qed
next
  case (Update k p)
  then show ?thesis by (simp add: Uniform_Update_def)
next
  case Clear
  then show ?thesis by (simp add: Uniform_Clear_def)
qed

lemma uniform_dom_foldl:
  "uniform_inv s \<Longrightarrow>
   dom (uniform_key_to_index (foldl Uniform_apply s ops)) =
     foldl key_set_step (dom (uniform_key_to_index s)) ops"
  by (induction ops arbitrary: s) (simp_all add: uniform_inv_apply uniform_dom_apply)

lemma uniform_dom_run: "dom (uniform_key_to_index (Uniform_run ops)) = key_set ops"
  using uniform_dom_foldl [OF uniform_inv_init, of ops]
  by (simp add: Uniform_run_def key_set_def Uniform_init_def)

lemma uniform_set_run: "set (uniform_keys (Uniform_run ops)) = key_set ops"
  using uniform_inv_dom [OF uniform_inv_run, of ops] uniform_dom_run by simp

lemma uniform_Insert_status:
  "fst (Uniform_Insert (Uniform_run ops) k p) =
     (if k \<in> key_set ops
      then InvalidArgumentError (StrCat_Key ''Key '' k '' already inserted.'')
      else OkStatus)"
  using uniform_dom_run [of ops]
  by (auto simp: Uniform_Insert_def emplace_def Let_def split: option.splits)

lemma uniform_Delete_status:
  "fst (Uniform_Delete (Uniform_run ops) k) =
     (if k \<in> key_set ops then OkStatus
      else InvalidArgumentError (StrCat_Key ''Key '' k '' not found.''))"
  using uniform_dom_run [of ops]
  by (auto simp: Uniform_Delete_def Let_def split: option.splits)

lemma uniform_Update_status:
  "fst (Uniform_Update (Uniform_run ops) k p) =
     (if k \<in> key_set ops then OkStatus
      else InvalidArgumentError (StrCat_Key ''Key '' k '' not found.''))"
  using uniform_dom_run [of ops]
  by (auto simp: Uniform_Update_def)

lemma uniform_Sample_None:
  "Uniform_Sample (Uniform_run ops) i = None \<longleftrightarrow> key_set ops = {}"
  using uniform_set_run [of ops] by (auto simp: Uniform_Sample_def)

lemma uniform_length_run: "length (uniform_keys (Uniform_run ops)) = card (key_set ops)"
  using uniform_inv_run [of ops] uniform_set_run [of ops]
  by (metis distinct_card uniform_inv_def)

section \<open>Properties of the FIFO and LIFO selectors\<close>

lemma fold_max_ge: "b \<le> fold max ys (b::nat) \<and> (\<forall>y \<in> set ys. y \<le> fold max ys b)"
proof (induction ys arbitrary: b)
  case Nil
  then show ?case by simp
next
  case (Cons y ys)
  have "max y b \<le> fold max ys (max y b)" using Cons.IH by blast
  then show ?case using Cons.IH [of "max y b"] by auto
qed

lemma fresh_node_notin: "fresh_node xs \<notin> fst ` set xs"
proof
  assume "fresh_node xs \<in> fst ` set xs"
  then have "fresh_node xs \<in> set (map fst xs)" by simp
  then have "fresh_node xs \<le> fold max (map fst xs) 0" using fold_max_ge by blast
  then show False by (simp add: fresh_node_def)
qed

lemma keylist_inv_dom: "keylist_inv xs m \<Longrightarrow> dom m = snd ` set xs"
  unfolding keylist_inv_def by (force simp: dom_def)

lemma keylist_inv_empty: "keylist_inv [] Map.empty"
  by (simp add: keylist_inv_def)

lemma keylist_inv_emplace_begin:
  assumes "keylist_inv xs m" "m k = None"
  shows "keylist_inv ((fresh_node xs, k) # xs) (m(k \<mapsto> fresh_node xs))"
proof -
  have "k \<notin> snd ` set xs" using keylist_inv_dom [OF assms(1)] assms(2) by (metis domIff)
  then have nk: "\<And>it. (it, k) \<notin> set xs" by force
  have nf: "\<And>k'. (fresh_node xs, k') \<notin> set xs" using fresh_node_notin [of xs] by force
  show ?thesis
    using assms(1) fresh_node_notin [of xs] nk nf
    unfolding keylist_inv_def by auto
qed

lemma keylist_inv_emplace_end:
  assumes "keylist_inv xs m" "m k = None"
  shows "keylist_inv (xs @ [(fresh_node xs, k)]) (m(k \<mapsto> fresh_node xs))"
proof -
  have "k \<notin> snd ` set xs" using keylist_inv_dom [OF assms(1)] assms(2) by (metis domIff)
  then have nk: "\<And>it. (it, k) \<notin> set xs" by force
  have nf: "\<And>k'. (fresh_node xs, k') \<notin> set xs" using fresh_node_notin [of xs] by force
  show ?thesis
    using assms(1) fresh_node_notin [of xs] nk nf
    unfolding keylist_inv_def by auto
qed

lemma list_erase_by_key:
  assumes "keylist_inv xs m" "m k = Some it"
  shows "list_erase xs it = filter (\<lambda>node. snd node \<noteq> k) xs"
proof -
  have d: "distinct (map fst xs)" and mem: "(it, k) \<in> set xs"
    using assms by (auto simp: keylist_inv_def)
  have "fst node \<noteq> it \<longleftrightarrow> snd node \<noteq> k" if "node \<in> set xs" for node
  proof -
    obtain a k' where node: "node = (a, k')" by (cases node)
    have "a = it \<Longrightarrow> k' = k" using eq_key_imp_eq_value [OF d] that mem node by blast
    moreover have "k' = k \<Longrightarrow> a = it"
    proof -
      assume "k' = k"
      then have "(a, k) \<in> set xs" using that node by simp
      then have "m k = Some a" using assms(1) by (simp add: keylist_inv_def)
      then show "a = it" using assms(2) by simp
    qed
    ultimately show ?thesis using node by auto
  qed
  then have "filter (\<lambda>node. fst node \<noteq> it) xs = filter (\<lambda>node. snd node \<noteq> k) xs"
    by (intro filter_cong) simp_all
  then show ?thesis by (simp add: list_erase_def)
qed

lemma keylist_inv_erase:
  assumes "keylist_inv xs m" "m k = Some it"
  shows "keylist_inv (list_erase xs it) (m(k := None))"
proof -
  have d: "distinct (map fst xs)" using assms by (simp add: keylist_inv_def)
  have "distinct (map fst (filter (\<lambda>node. snd node \<noteq> k) xs))"
    using d by (simp add: distinct_map_filter)
  then show ?thesis
    unfolding list_erase_by_key [OF assms] using assms(1)
    by (auto simp: keylist_inv_def)
qed

lemma keylist_ordered_empty: "keylist_ordered ord [] (t, Map.empty)"
  by (simp add: keylist_ordered_def)

lemma keylist_ordered_tick:
  "keylist_ordered ord xs (t, m) \<Longrightarrow> keylist_ordered ord xs (Suc t, m)"
  by (auto simp: keylist_ordered_def less_Suc_eq)

lemma keylist_ordered_erase:
  assumes "keylist_ordered ord xs (t, m)"
  shows "keylist_ordered ord (filter (\<lambda>node. snd node \<noteq> k) xs) (Suc t, m(k := None))"
proof -
  let ?ys = "filter (\<lambda>node. snd node \<noteq> k) xs"
  have dom: "dom m = snd ` set xs" and lt: "\<And>k s. m k = Some s \<Longrightarrow> s < t"
    and srt: "sorted_wrt (\<lambda>a b. ord (the (m (snd a))) (the (m (snd b)))) xs"
    using assms by (auto simp: keylist_ordered_def)
  have d: "dom (m(k := None)) = snd ` set ?ys" using dom by force
  have "sorted_wrt (\<lambda>a b. ord (the (m (snd a))) (the (m (snd b)))) ?ys"
    using srt by (rule sorted_wrt_filter)
  then have s: "sorted_wrt (\<lambda>a b. ord (the ((m(k := None)) (snd a)))
                                  (the ((m(k := None)) (snd b)))) ?ys"
    by (rule sorted_wrt_mono_rel [rotated]) auto
  show ?thesis
    unfolding keylist_ordered_def using d s lt by (auto simp: less_Suc_eq)
qed

lemma keylist_ordered_begin:
  assumes "keylist_ordered (\<lambda>a b. b < a) xs (t, m)" "m k = None"
  shows "keylist_ordered (\<lambda>a b. b < a) ((it, k) # xs) (Suc t, m(k \<mapsto> t))"
proof -
  have dom: "dom m = snd ` set xs" and lt: "\<And>k s. m k = Some s \<Longrightarrow> s < t"
    and srt: "sorted_wrt (\<lambda>a b. the (m (snd b)) < the (m (snd a))) xs"
    using assms by (auto simp: keylist_ordered_def)
  have nk: "\<And>node. node \<in> set xs \<Longrightarrow> snd node \<noteq> k"
    using dom assms(2) by (metis domIff imageI)
  have s: "sorted_wrt (\<lambda>a b. the ((m(k \<mapsto> t)) (snd b)) < the ((m(k \<mapsto> t)) (snd a))) xs"
    using srt by (rule sorted_wrt_mono_rel [rotated]) (auto dest: nk)
  have hd: "the ((m(k \<mapsto> t)) (snd node)) < t" if "node \<in> set xs" for node
  proof -
    have "snd node \<in> dom m" using dom that by auto
    then obtain s where "m (snd node) = Some s" by auto
    then show ?thesis using lt [of "snd node" s] nk [OF that] by simp
  qed
  show ?thesis
    unfolding keylist_ordered_def using dom s hd lt by (auto simp: less_Suc_eq)
qed

lemma keylist_ordered_end:
  assumes "keylist_ordered (\<lambda>a b. a < b) xs (t, m)" "m k = None"
  shows "keylist_ordered (\<lambda>a b. a < b) (xs @ [(it, k)]) (Suc t, m(k \<mapsto> t))"
proof -
  have dom: "dom m = snd ` set xs" and lt: "\<And>k s. m k = Some s \<Longrightarrow> s < t"
    and srt: "sorted_wrt (\<lambda>a b. the (m (snd a)) < the (m (snd b))) xs"
    using assms by (auto simp: keylist_ordered_def)
  have nk: "\<And>node. node \<in> set xs \<Longrightarrow> snd node \<noteq> k"
    using dom assms(2) by (metis domIff imageI)
  have s: "sorted_wrt (\<lambda>a b. the ((m(k \<mapsto> t)) (snd a)) < the ((m(k \<mapsto> t)) (snd b))) xs"
    using srt by (rule sorted_wrt_mono_rel [rotated]) (auto dest: nk)
  have hd: "the ((m(k \<mapsto> t)) (snd node)) < t" if "node \<in> set xs" for node
  proof -
    have "snd node \<in> dom m" using dom that by auto
    then obtain s where "m (snd node) = Some s" by auto
    then show ?thesis using lt [of "snd node" s] nk [OF that] by simp
  qed
  show ?thesis
    unfolding keylist_ordered_def using dom s hd lt
    by (auto simp: less_Suc_eq sorted_wrt_append)
qed

lemma lifo_step:
  assumes inv: "keylist_inv (lifo_keys s) (lifo_key_to_iterator s)"
    and ord: "keylist_ordered (\<lambda>a b. b < a) (lifo_keys s) tm"
  shows "keylist_inv (lifo_keys (Lifo_apply s op)) (lifo_key_to_iterator (Lifo_apply s op)) \<and>
         keylist_ordered (\<lambda>a b. b < a) (lifo_keys (Lifo_apply s op)) (insert_time_step tm op)"
proof -
  obtain t m where tm: "tm = (t, m)" by (cases tm)
  have doms: "dom m = dom (lifo_key_to_iterator s)"
    using keylist_inv_dom [OF inv] ord by (simp add: keylist_ordered_def tm)
  then have none: "\<And>k. m k = None \<longleftrightarrow> lifo_key_to_iterator s k = None"
    by (metis domIff)
  show ?thesis
  proof (cases op)
    case (Insert k p)
    show ?thesis
    proof (cases "lifo_key_to_iterator s k")
      case None
      then show ?thesis
        using Insert inv ord none [of k] keylist_inv_emplace_begin [OF inv None]
          keylist_ordered_begin [of "lifo_keys s" t m k]
        by (simp add: tm Lifo_Insert_def list_emplace_begin_def emplace_def Let_def)
    next
      case (Some it)
      then obtain st where "m k = Some st" using none [of k] by auto
      then show ?thesis
        using Insert Some inv ord keylist_ordered_tick [of _ "lifo_keys s" t m]
        by (simp add: tm Lifo_Insert_def)
    qed
  next
    case (Delete k)
    show ?thesis
    proof (cases "lifo_key_to_iterator s k")
      case None
      then have "m(k := None) = m" using none [of k] by auto
      then show ?thesis
        using Delete None inv ord keylist_ordered_tick [of _ "lifo_keys s" t m]
        by (simp add: tm Lifo_Delete_def)
    next
      case (Some it)
      then show ?thesis
        using Delete inv ord keylist_inv_erase [OF inv Some] list_erase_by_key [OF inv Some]
          keylist_ordered_erase [of _ "lifo_keys s" t m k]
        by (simp add: tm Lifo_Delete_def)
    qed
  next
    case (Update k p)
    then show ?thesis
      using inv ord keylist_ordered_tick [of _ "lifo_keys s" t m]
      by (simp add: tm Lifo_Update_def)
  next
    case Clear
    then show ?thesis
      by (simp add: tm Lifo_Clear_def keylist_inv_empty keylist_ordered_empty)
  qed
qed

lemma lifo_foldl:
  assumes "keylist_inv (lifo_keys s) (lifo_key_to_iterator s)"
    and "keylist_ordered (\<lambda>a b. b < a) (lifo_keys s) tm"
  shows "keylist_inv (lifo_keys (foldl Lifo_apply s ops))
           (lifo_key_to_iterator (foldl Lifo_apply s ops)) \<and>
         keylist_ordered (\<lambda>a b. b < a) (lifo_keys (foldl Lifo_apply s ops))
           (foldl insert_time_step tm ops)"
  using assms
proof (induction ops arbitrary: s tm)
  case Nil
  then show ?case by simp
next
  case (Cons op ops)
  have a: "keylist_inv (lifo_keys (Lifo_apply s op)) (lifo_key_to_iterator (Lifo_apply s op))"
    and b: "keylist_ordered (\<lambda>a b. b < a) (lifo_keys (Lifo_apply s op))
              (insert_time_step tm op)"
    using lifo_step [OF Cons.prems, of op] by auto
  show ?case using Cons.IH [OF a b] by simp
qed

lemma lifo_run:
  "keylist_inv (lifo_keys (Lifo_run ops)) (lifo_key_to_iterator (Lifo_run ops)) \<and>
   keylist_ordered (\<lambda>a b. b < a) (lifo_keys (Lifo_run ops))
     (foldl insert_time_step (0, Map.empty) ops)"
  unfolding Lifo_run_def
  by (rule lifo_foldl) (simp_all add: Lifo_init_def keylist_inv_empty keylist_ordered_empty)

lemma dom_insert_time_foldl:
  "dom (snd (foldl insert_time_step tm ops)) = foldl key_set_step (dom (snd tm)) ops"
proof (induction ops arbitrary: tm)
  case Nil
  then show ?case by simp
next
  case (Cons op ops)
  obtain t m where tm: "tm = (t, m)" by (cases tm)
  have "dom (snd (insert_time_step tm op)) = key_set_step (dom (snd tm)) op"
    by (cases op) (auto simp: tm)
  then show ?case using Cons.IH [of "insert_time_step tm op"] by simp
qed

lemma dom_insert_time: "dom (insert_time ops) = key_set ops"
  using dom_insert_time_foldl [of "(0, Map.empty)" ops]
  by (simp add: insert_time_def key_set_def)

lemma lifo_dom_run: "dom (lifo_key_to_iterator (Lifo_run ops)) = key_set ops"
  using lifo_run [of ops] keylist_inv_dom [of "lifo_keys (Lifo_run ops)"]
    dom_insert_time [of ops]
  by (simp add: keylist_ordered_def insert_time_def)

lemma fifo_step:
  assumes inv: "keylist_inv (fifo_keys s) (fifo_key_to_iterator s)"
    and ord: "keylist_ordered (\<lambda>a b. a < b) (fifo_keys s) tm"
  shows "keylist_inv (fifo_keys (Fifo_apply s op)) (fifo_key_to_iterator (Fifo_apply s op)) \<and>
         keylist_ordered (\<lambda>a b. a < b) (fifo_keys (Fifo_apply s op)) (insert_time_step tm op)"
proof -
  obtain t m where tm: "tm = (t, m)" by (cases tm)
  have doms: "dom m = dom (fifo_key_to_iterator s)"
    using keylist_inv_dom [OF inv] ord by (simp add: keylist_ordered_def tm)
  then have none: "\<And>k. m k = None \<longleftrightarrow> fifo_key_to_iterator s k = None"
    by (metis domIff)
  show ?thesis
  proof (cases op)
    case (Insert k p)
    show ?thesis
    proof (cases "fifo_key_to_iterator s k")
      case None
      then show ?thesis
        using Insert inv ord none [of k] keylist_inv_emplace_end [OF inv None]
          keylist_ordered_end [of "fifo_keys s" t m k]
        by (simp add: tm Fifo_Insert_def list_emplace_end_def emplace_def Let_def)
    next
      case (Some it)
      then obtain st where "m k = Some st" using none [of k] by auto
      then show ?thesis
        using Insert Some inv ord keylist_ordered_tick [of _ "fifo_keys s" t m]
        by (simp add: tm Fifo_Insert_def)
    qed
  next
    case (Delete k)
    show ?thesis
    proof (cases "fifo_key_to_iterator s k")
      case None
      then have "m(k := None) = m" using none [of k] by auto
      then show ?thesis
        using Delete None inv ord keylist_ordered_tick [of _ "fifo_keys s" t m]
        by (simp add: tm Fifo_Delete_def)
    next
      case (Some it)
      then show ?thesis
        using Delete inv ord keylist_inv_erase [OF inv Some] list_erase_by_key [OF inv Some]
          keylist_ordered_erase [of _ "fifo_keys s" t m k]
        by (simp add: tm Fifo_Delete_def)
    qed
  next
    case (Update k p)
    then show ?thesis
      using inv ord keylist_ordered_tick [of _ "fifo_keys s" t m]
      by (simp add: tm Fifo_Update_def)
  next
    case Clear
    then show ?thesis
      by (simp add: tm Fifo_Clear_def keylist_inv_empty keylist_ordered_empty)
  qed
qed

lemma fifo_foldl:
  assumes "keylist_inv (fifo_keys s) (fifo_key_to_iterator s)"
    and "keylist_ordered (\<lambda>a b. a < b) (fifo_keys s) tm"
  shows "keylist_inv (fifo_keys (foldl Fifo_apply s ops))
           (fifo_key_to_iterator (foldl Fifo_apply s ops)) \<and>
         keylist_ordered (\<lambda>a b. a < b) (fifo_keys (foldl Fifo_apply s ops))
           (foldl insert_time_step tm ops)"
  using assms
proof (induction ops arbitrary: s tm)
  case Nil
  then show ?case by simp
next
  case (Cons op ops)
  have a: "keylist_inv (fifo_keys (Fifo_apply s op)) (fifo_key_to_iterator (Fifo_apply s op))"
    and b: "keylist_ordered (\<lambda>a b. a < b) (fifo_keys (Fifo_apply s op))
              (insert_time_step tm op)"
    using fifo_step [OF Cons.prems, of op] by auto
  show ?case using Cons.IH [OF a b] by simp
qed

lemma fifo_run:
  "keylist_inv (fifo_keys (Fifo_run ops)) (fifo_key_to_iterator (Fifo_run ops)) \<and>
   keylist_ordered (\<lambda>a b. a < b) (fifo_keys (Fifo_run ops))
     (foldl insert_time_step (0, Map.empty) ops)"
  unfolding Fifo_run_def
  by (rule fifo_foldl) (simp_all add: Fifo_init_def keylist_inv_empty keylist_ordered_empty)


lemma fifo_dom_run: "dom (fifo_key_to_iterator (Fifo_run ops)) = key_set ops"
  using fifo_run [of ops] keylist_inv_dom [of "fifo_keys (Fifo_run ops)"]
    dom_insert_time [of ops]
  by (simp add: keylist_ordered_def insert_time_def)

lemma keylist_ordered_front:
  assumes "keylist_ordered ord xs (T, m)" "xs \<noteq> []"
  shows "\<exists>t. m (list_front xs) = Some t \<and>
             (\<forall>k' t'. m k' = Some t' \<longrightarrow> t' = t \<or> ord t t')"
proof -
  obtain x ys where xs: "xs = x # ys" using assms(2) by (cases xs) auto
  have dom: "dom m = snd ` set xs"
    and srt: "sorted_wrt (\<lambda>a b. ord (the (m (snd a))) (the (m (snd b)))) xs"
    using assms(1) by (auto simp: keylist_ordered_def)
  have "snd x \<in> dom m" using dom xs by simp
  then obtain t where t: "m (snd x) = Some t" by auto
  have "t' = t \<or> ord t t'" if k': "m k' = Some t'" for k' t'
  proof -
    have "k' \<in> snd ` set xs" using dom k' by auto
    then consider "k' = snd x" | y where "y \<in> set ys" "k' = snd y" using xs by auto
    then show ?thesis
    proof cases
      case 1
      then show ?thesis using t k' by simp
    next
      case 2
      then have "ord (the (m (snd x))) (the (m (snd y)))" using srt xs by simp
      then show ?thesis using 2 t k' by simp
    qed
  qed
  then show ?thesis using t xs by (auto simp: list_front_def)
qed

lemma lifo_keys_empty: "lifo_keys (Lifo_run ops) = [] \<longleftrightarrow> key_set ops = {}"
  using lifo_dom_run [of ops] lifo_run [of ops] keylist_inv_dom [of "lifo_keys (Lifo_run ops)"]
  by auto

lemma fifo_keys_empty: "fifo_keys (Fifo_run ops) = [] \<longleftrightarrow> key_set ops = {}"
  using fifo_dom_run [of ops] fifo_run [of ops] keylist_inv_dom [of "fifo_keys (Fifo_run ops)"]
  by auto

text \<open>
  C2. After any sequence of Insert, Delete, Update and Clear calls that leaves
  a key present, \<^verbatim>\<open>FifoSelector::Sample\<close> returns, with probability field 1,
  the present key whose Insert is the earliest among the present keys, and
  \<^verbatim>\<open>LifoSelector::Sample\<close> returns, with probability field 1, the present
  key whose Insert is the latest; both leave the selector as it was.
\<close>

theorem fifo_lifo_sample_order:
  assumes "key_set ops \<noteq> {}"
  shows "(\<exists>k t. Fifo_Sample (Fifo_run ops) = Some (\<lparr>key = k, probability = 1\<rparr>, Fifo_run ops) \<and>
                insert_time ops k = Some t \<and>
                (\<forall>k' t'. insert_time ops k' = Some t' \<longrightarrow> t \<le> t')) \<and>
         (\<exists>k t. Lifo_Sample (Lifo_run ops) = Some (\<lparr>key = k, probability = 1\<rparr>, Lifo_run ops) \<and>
                insert_time ops k = Some t \<and>
                (\<forall>k' t'. insert_time ops k' = Some t' \<longrightarrow> t' \<le> t))"
proof
  have ne: "fifo_keys (Fifo_run ops) \<noteq> []" using assms fifo_keys_empty by simp
  obtain T m where tm: "foldl insert_time_step (0, Map.empty) ops = (T, m)"
    by (cases "foldl insert_time_step (0, Map.empty) ops")
  then have m: "insert_time ops = m" by (simp add: insert_time_def)
  have "keylist_ordered (\<lambda>a b. a < b) (fifo_keys (Fifo_run ops)) (T, m)"
    using fifo_run [of ops] tm by simp
  from keylist_ordered_front [OF this ne]
  obtain t where fr: "m (list_front (fifo_keys (Fifo_run ops))) = Some t"
    and "\<forall>k' t'. m k' = Some t' \<longrightarrow> t' = t \<or> t < t'" by blast
  then have "\<forall>k' t'. m k' = Some t' \<longrightarrow> t \<le> t'" by fastforce
  with fr show "\<exists>k t. Fifo_Sample (Fifo_run ops) = Some (\<lparr>key = k, probability = 1\<rparr>, Fifo_run ops) \<and>
                insert_time ops k = Some t \<and>
                (\<forall>k' t'. insert_time ops k' = Some t' \<longrightarrow> t \<le> t')"
    using ne m by (auto simp: Fifo_Sample_def)
next
  have ne: "lifo_keys (Lifo_run ops) \<noteq> []" using assms lifo_keys_empty by simp
  obtain T m where tm: "foldl insert_time_step (0, Map.empty) ops = (T, m)"
    by (cases "foldl insert_time_step (0, Map.empty) ops")
  then have m: "insert_time ops = m" by (simp add: insert_time_def)
  have "keylist_ordered (\<lambda>a b. b < a) (lifo_keys (Lifo_run ops)) (T, m)"
    using lifo_run [of ops] tm by simp
  from keylist_ordered_front [OF this ne]
  obtain t where fr: "m (list_front (lifo_keys (Lifo_run ops))) = Some t"
    and "\<forall>k' t'. m k' = Some t' \<longrightarrow> t' = t \<or> t' < t" by blast
  then have "\<forall>k' t'. m k' = Some t' \<longrightarrow> t' \<le> t" by fastforce
  with fr show "\<exists>k t. Lifo_Sample (Lifo_run ops) = Some (\<lparr>key = k, probability = 1\<rparr>, Lifo_run ops) \<and>
                insert_time ops k = Some t \<and>
                (\<forall>k' t'. insert_time ops k' = Some t' \<longrightarrow> t' \<le> t)"
    using ne m by (auto simp: Lifo_Sample_def)
qed

theorem fifo_lifo_sample_order_witness:
  "key_set [Insert 1 0, Insert 2 0, Insert 3 0, Delete 1] \<noteq> {} \<and>
   map_option fst (Fifo_Sample (Fifo_run [Insert 1 0, Insert 2 0, Insert 3 0, Delete 1]))
     = Some \<lparr>key = 2, probability = 1\<rparr> \<and>
   map_option fst (Lifo_Sample (Lifo_run [Insert 1 0, Insert 2 0, Insert 3 0, Delete 1]))
     = Some \<lparr>key = 3, probability = 1\<rparr> \<and>
   (\<exists>k t. Fifo_Sample (Fifo_run [Insert 1 0, Insert 2 0, Insert 3 0, Delete 1])
            = Some (\<lparr>key = k, probability = 1\<rparr>,
                    Fifo_run [Insert 1 0, Insert 2 0, Insert 3 0, Delete 1]) \<and>
          insert_time [Insert 1 0, Insert 2 0, Insert 3 0, Delete 1] k = Some t \<and>
          (\<forall>k' t'. insert_time [Insert 1 0, Insert 2 0, Insert 3 0, Delete 1] k' = Some t'
             \<longrightarrow> t \<le> t'))"
proof -
  have h: "key_set [Insert 1 0, Insert 2 0, Insert 3 0, Delete 1] \<noteq> {}"
    by (simp add: key_set_def)
  have f: "map_option fst (Fifo_Sample (Fifo_run [Insert 1 0, Insert 2 0, Insert 3 0, Delete 1]))
     = Some \<lparr>key = 2, probability = 1\<rparr>"
    by (simp add: Fifo_Sample_def Fifo_run_def Fifo_init_def Fifo_Insert_def Fifo_Delete_def
        list_emplace_end_def fresh_node_def emplace_def list_erase_def list_front_def Let_def)
  have l: "map_option fst (Lifo_Sample (Lifo_run [Insert 1 0, Insert 2 0, Insert 3 0, Delete 1]))
     = Some \<lparr>key = 3, probability = 1\<rparr>"
    by (simp add: Lifo_Sample_def Lifo_run_def Lifo_init_def Lifo_Insert_def Lifo_Delete_def
        list_emplace_begin_def fresh_node_def emplace_def list_erase_def list_front_def Let_def)
  show ?thesis using fifo_lifo_sample_order [OF h] h f l by blast
qed

section \<open>Properties of the heap selector\<close>

lemma heap_dom_apply:
  "dom (nodes (Heap_apply s op)) = key_set_step (dom (nodes s)) op"
  by (cases op)
     (auto simp: Heap_Insert_def Heap_Delete_def Heap_Update_def Heap_Clear_def
           split: option.splits if_splits)

lemma heap_dom_foldl:
  "dom (nodes (foldl Heap_apply s ops)) = foldl key_set_step (dom (nodes s)) ops"
  by (induction ops arbitrary: s) (simp_all add: heap_dom_apply)

lemma heap_dom_run: "dom (nodes (Heap_run min_heap ops)) = key_set ops"
  using heap_dom_foldl [of "Heap_init min_heap" ops]
  by (simp add: Heap_run_def key_set_def Heap_init_def)

lemma heap_sign_apply: "heap_sign (Heap_apply s op) = heap_sign s"
  by (cases op)
     (auto simp: Heap_Insert_def Heap_Delete_def Heap_Update_def Heap_Clear_def
           split: option.splits)

lemma heap_sign_foldl: "heap_sign (foldl Heap_apply s ops) = heap_sign s"
  by (induction ops arbitrary: s) (simp_all add: heap_sign_apply)

lemma heap_sign_run: "heap_sign (Heap_run min_heap ops) = (if min_heap then 1 else -1)"
  by (simp add: Heap_run_def heap_sign_foldl Heap_init_def)

lemma heap_rel_init: "heap_rel (Heap_init min_heap) (0, Map.empty)"
  by (simp add: heap_rel_def Heap_init_def)

lemma heap_rel_tick:
  "heap_rel s (t, m) \<Longrightarrow> heap_rel s (Suc t, m)"
  unfolding heap_rel_def by (auto simp: less_Suc_eq) blast+

lemma heap_relD:
  assumes "heap_rel s (t, m)"
  shows "set (heap s) = dom (nodes s)" "dom m = dom (nodes s)"
    and "\<And>k n. nodes s k = Some n \<Longrightarrow> node_key n = k"
    and "\<And>k n. nodes s k = Some n \<Longrightarrow> update_number n < update_count s"
    and "\<And>k n. nodes s k = Some n \<Longrightarrow>
           \<exists>p \<tau>. m k = Some (p, \<tau>) \<and> priority n = p * heap_sign s \<and> \<tau> < t"
    and "\<And>k k' n n'. nodes s k = Some n \<Longrightarrow> nodes s k' = Some n' \<Longrightarrow>
           update_number n = update_number n' \<Longrightarrow> k = k'"
    and "\<And>k k' n n' p p' \<tau> \<tau>'. nodes s k = Some n \<Longrightarrow> nodes s k' = Some n' \<Longrightarrow>
           m k = Some (p, \<tau>) \<Longrightarrow> m k' = Some (p', \<tau>') \<Longrightarrow>
           (update_number n < update_number n' \<longleftrightarrow> \<tau> < \<tau>')"
  using assms unfolding heap_rel_def fst_conv snd_conv by blast+

lemma heap_relI:
  assumes "set (heap s) = dom (nodes s)" "dom m = dom (nodes s)"
    and "\<And>k n. nodes s k = Some n \<Longrightarrow> node_key n = k"
    and "\<And>k n. nodes s k = Some n \<Longrightarrow> update_number n < update_count s"
    and "\<And>k n. nodes s k = Some n \<Longrightarrow>
           \<exists>p \<tau>. m k = Some (p, \<tau>) \<and> priority n = p * heap_sign s \<and> \<tau> < t"
    and "\<And>k k' n n'. nodes s k = Some n \<Longrightarrow> nodes s k' = Some n' \<Longrightarrow>
           update_number n = update_number n' \<Longrightarrow> k = k'"
    and "\<And>k k' n n' p p' \<tau> \<tau>'. nodes s k = Some n \<Longrightarrow> nodes s k' = Some n' \<Longrightarrow>
           m k = Some (p, \<tau>) \<Longrightarrow> m k' = Some (p', \<tau>') \<Longrightarrow>
           (update_number n < update_number n' \<longleftrightarrow> \<tau> < \<tau>')"
  shows "heap_rel s (t, m)"
  unfolding heap_rel_def fst_conv snd_conv using assms by blast

lemma heap_rel_stamp:
  assumes rel: "heap_rel s (t, m)"
    and s': "nodes s' = (nodes s)(k \<mapsto> nw)" "update_count s' = Suc (update_count s)"
      "heap_sign s' = heap_sign s" "set (heap s') = insert k (set (heap s))"
    and nw: "node_key nw = k" "priority nw = p * heap_sign s"
      "update_number nw = update_count s"
  shows "heap_rel s' (Suc t, m(k \<mapsto> (p, t)))"
proof (rule heap_relI)
  note D = heap_relD [OF rel]
  have nd: "(k1 = k \<and> n = nw) \<or> (k1 \<noteq> k \<and> nodes s k1 = Some n)"
    if "nodes s' k1 = Some n" for k1 n
    using that s'(1) by (auto split: if_splits)
  have old_lt: "update_number n < update_number nw" if "nodes s k1 = Some n" for k1 n
    using D(4) [OF that] nw(3) by simp
  have old_t: "\<tau> < t" if "nodes s k1 = Some n" "m k1 = Some (pa, \<tau>)" for k1 n pa \<tau>
    using D(5) [OF that(1)] that(2) by auto
  show "set (heap s') = dom (nodes s')" using D(1) s' by simp
  show "dom (m(k \<mapsto> (p, t))) = dom (nodes s')" using D(2) s' by simp
  show "node_key n = k1" if "nodes s' k1 = Some n" for k1 n
    using nd [OF that] D(3) [of k1 n] nw(1) by auto
  show "update_number n < update_count s'" if "nodes s' k1 = Some n" for k1 n
    using nd [OF that] D(4) [of k1 n] nw(3) s'(2) by auto
  show "\<exists>pa \<tau>. (m(k \<mapsto> (p, t))) k1 = Some (pa, \<tau>) \<and>
          priority n = pa * heap_sign s' \<and> \<tau> < Suc t" if "nodes s' k1 = Some n" for k1 n
  proof (cases "k1 = k")
    case True
    then show ?thesis using nd [OF that] nw(2) s'(3) by simp
  next
    case False
    then have "nodes s k1 = Some n" using nd [OF that] by simp
    from D(5) [OF this] show ?thesis using False s'(3) by (auto simp: less_Suc_eq)
  qed
  show "k1 = k2" if h: "nodes s' k1 = Some n" "nodes s' k2 = Some n'"
    "update_number n = update_number n'" for k1 k2 n n'
  proof -
    consider "k1 = k" "k2 = k" | "k1 = k" "n = nw" "k2 \<noteq> k" "nodes s k2 = Some n'"
      | "k1 \<noteq> k" "nodes s k1 = Some n" "k2 = k" "n' = nw"
      | "nodes s k1 = Some n" "nodes s k2 = Some n'"
      using nd [OF h(1)] nd [OF h(2)] by blast
    then show ?thesis
    proof cases
      case 1
      then show ?thesis by simp
    next
      case 2
      then show ?thesis using old_lt [of k2 n'] h(3) by simp
    next
      case 3
      then show ?thesis using old_lt [of k1 n] h(3) by simp
    next
      case 4
      then show ?thesis using D(6) h(3) by blast
    qed
  qed
  show "(update_number n < update_number n') = (\<tau> < \<tau>')"
    if h: "nodes s' k1 = Some n" "nodes s' k2 = Some n'"
      "(m(k \<mapsto> (p, t))) k1 = Some (pa, \<tau>)" "(m(k \<mapsto> (p, t))) k2 = Some (p', \<tau>')"
    for k1 k2 n n' pa p' \<tau> \<tau>'
  proof -
    consider "k1 = k" "n = nw" "k2 = k" "n' = nw"
      | "k1 = k" "n = nw" "k2 \<noteq> k" "nodes s k2 = Some n'"
      | "k1 \<noteq> k" "nodes s k1 = Some n" "k2 = k" "n' = nw"
      | "k1 \<noteq> k" "nodes s k1 = Some n" "k2 \<noteq> k" "nodes s k2 = Some n'"
      using nd [OF h(1)] nd [OF h(2)] by blast
    then show ?thesis
    proof cases
      case 1
      then show ?thesis using h(3,4) by simp
    next
      case 2
      then have "\<tau> = t" "m k2 = Some (p', \<tau>')" using h(3,4) by auto
      then show ?thesis using 2 old_lt [of k2 n'] old_t [of k2 n' p' \<tau>'] by auto
    next
      case 3
      then have "\<tau>' = t" "m k1 = Some (pa, \<tau>)" using h(3,4) by auto
      then show ?thesis using 3 old_lt [of k1 n] old_t [of k1 n pa \<tau>] by auto
    next
      case 4
      then have "m k1 = Some (pa, \<tau>)" "m k2 = Some (p', \<tau>')" using h(3,4) by auto
      then show ?thesis using 4 D(7) by blast
    qed
  qed
qed

lemma heap_rel_remove:
  assumes rel: "heap_rel s (t, m)"
    and s': "nodes s' = (nodes s)(k := None)" "update_count s' = update_count s"
      "heap_sign s' = heap_sign s" "set (heap s') = set (heap s) - {k}"
  shows "heap_rel s' (Suc t, m(k := None))"
proof (rule heap_relI)
  note D = heap_relD [OF rel]
  show "set (heap s') = dom (nodes s')" using D(1) s' by simp
  show "dom (m(k := None)) = dom (nodes s')" using D(2) s' by simp
  show "node_key n = k1" if "nodes s' k1 = Some n" for k1 n
    using that D(3) [of k1 n] s' by (cases "k1 = k") auto
  show "update_number n < update_count s'" if "nodes s' k1 = Some n" for k1 n
    using that D(4) [of k1 n] s' by (cases "k1 = k") auto
  show "\<exists>pa \<tau>. (m(k := None)) k1 = Some (pa, \<tau>) \<and>
          priority n = pa * heap_sign s' \<and> \<tau> < Suc t" if "nodes s' k1 = Some n" for k1 n
    using that D(5) [of k1 n] s' by (cases "k1 = k") (auto simp: less_Suc_eq)
  show "k1 = k2" if "nodes s' k1 = Some n" "nodes s' k2 = Some n'"
    "update_number n = update_number n'" for k1 k2 n n'
    using that D(6) [of k1 n k2 n'] s'
    by (cases "k1 = k"; cases "k2 = k") auto
  show "(update_number n < update_number n') = (\<tau> < \<tau>')"
    if "nodes s' k1 = Some n" "nodes s' k2 = Some n'"
      "(m(k := None)) k1 = Some (pa, \<tau>)" "(m(k := None)) k2 = Some (p', \<tau>')"
    for k1 k2 n n' pa p' \<tau> \<tau>'
    using that D(7) [of k1 n k2 n' pa \<tau> p' \<tau>'] s'
    by (cases "k1 = k"; cases "k2 = k") auto
qed

lemma heap_step:
  assumes rel: "heap_rel s tm"
  shows "heap_rel (Heap_apply s op) (last_update_step tm op)"
proof -
  obtain t m where tm: "tm = (t, m)" by (cases tm)
  note rel' = rel [unfolded tm]
  note D = heap_relD [OF rel']
  have none: "\<And>k. m k = None \<longleftrightarrow> nodes s k = None" using D(2) by (metis domIff)
  show ?thesis
  proof (cases op)
    case (Insert k p)
    show ?thesis
    proof (cases "nodes s k")
      case None
      have "heap_rel (snd (Heap_Insert s k p)) (Suc t, m(k \<mapsto> (p, t)))"
        by (rule heap_rel_stamp [where nw = "\<lparr>node_key = k, priority = p * heap_sign s, update_number = update_count s\<rparr>", OF rel'])
           (simp_all add: Heap_Insert_def None heap_Push_def)
      then show ?thesis using Insert None none [of k] by (simp add: tm)
    next
      case (Some node)
      then obtain v where "m k = Some v" using none [of k] by auto
      then show ?thesis using Insert Some heap_rel_tick [OF rel']
        by (simp add: tm Heap_Insert_def)
    qed
  next
    case (Update k p)
    show ?thesis
    proof (cases "nodes s k")
      case None
      then show ?thesis using Update none [of k] heap_rel_tick [OF rel']
        by (simp add: tm Heap_Update_def)
    next
      case (Some node)
      then obtain v where v: "m k = Some v" using none [of k] by auto
      have "k \<in> set (heap s)" using D(1) Some by auto
      then have ins: "insert k (set (heap s)) = set (heap s)" by auto
      have "heap_rel (snd (Heap_Update s k p)) (Suc t, m(k \<mapsto> (p, t)))"
        by (rule heap_rel_stamp [where nw = "node\<lparr>priority := p * heap_sign s, update_number := update_count s\<rparr>", OF rel'])
           (simp_all add: Heap_Update_def Some heap_Adjust_def ins D(3) [OF Some])
      then show ?thesis using Update Some v by (simp add: tm)
    qed
  next
    case (Delete k)
    show ?thesis
    proof (cases "nodes s k")
      case None
      then have "m(k := None) = m" using none [of k] by auto
      then show ?thesis using Delete None heap_rel_tick [OF rel']
        by (simp add: tm Heap_Delete_def)
    next
      case (Some node)
      have "heap_rel (snd (Heap_Delete s k)) (Suc t, m(k := None))"
        by (rule heap_rel_remove [OF rel'])
           (simp_all add: Heap_Delete_def Some heap_Remove_def)
      then show ?thesis using Delete by (simp add: tm)
    qed
  next
    case Clear
    then show ?thesis by (simp add: tm Heap_Clear_def heap_rel_def)
  qed
qed

lemma heap_rel_foldl:
  "heap_rel s tm \<Longrightarrow> heap_rel (foldl Heap_apply s ops) (foldl last_update_step tm ops)"
  by (induction ops arbitrary: s tm) (simp_all add: heap_step)

lemma heap_rel_run:
  "heap_rel (Heap_run min_heap ops) (foldl last_update_step (0, Map.empty) ops)"
  unfolding Heap_run_def by (rule heap_rel_foldl) (rule heap_rel_init)

lemma HeapNodeCompare_trans:
  "HeapNodeCompare a b \<Longrightarrow> HeapNodeCompare b c \<Longrightarrow> HeapNodeCompare a c"
  by (auto simp: HeapNodeCompare_def)

lemma HeapNodeCompare_neg_trans:
  "\<not> HeapNodeCompare a b \<Longrightarrow> \<not> HeapNodeCompare b c \<Longrightarrow> \<not> HeapNodeCompare a c"
  by (auto simp: HeapNodeCompare_def)

lemma best_node_least:
  "best_node b ns \<in> set (b # ns) \<and>
   (\<forall>n \<in> set (b # ns). \<not> HeapNodeCompare n (best_node b ns))"
proof (induction ns arbitrary: b)
  case Nil
  then show ?case by (simp add: HeapNodeCompare_def)
next
  case (Cons n ns)
  let ?b = "if HeapNodeCompare n b then n else b"
  let ?r = "best_node ?b ns"
  have mem: "?r \<in> set (?b # ns)" and least: "\<forall>x \<in> set (?b # ns). \<not> HeapNodeCompare x ?r"
    using Cons.IH [of ?b] by blast+
  have b': "\<not> HeapNodeCompare ?b ?r" using least by simp
  have nb: "\<not> HeapNodeCompare n ?b" by (auto simp: HeapNodeCompare_def)
  have bb: "\<not> HeapNodeCompare b ?b" by (auto simp: HeapNodeCompare_def)
  have "\<not> HeapNodeCompare n ?r" using HeapNodeCompare_neg_trans [OF nb b'] .
  moreover have "\<not> HeapNodeCompare b ?r" using HeapNodeCompare_neg_trans [OF bb b'] .
  ultimately show ?case using mem least by auto
qed

lemma set_map_filter: "set (List.map_filter f xs) = {y. \<exists>x \<in> set xs. f x = Some y}"
  by (induction xs) (auto split: option.splits)

lemma heap_top_least:
  assumes rel: "heap_rel s (t, m)" and ne: "dom (nodes s) \<noteq> {}"
  shows "\<exists>k n. heap_top (nodes s) (heap s) = Some n \<and> nodes s k = Some n \<and>
               (\<forall>k' n'. nodes s k' = Some n' \<longrightarrow> \<not> HeapNodeCompare n' n)"
proof -
  note D = heap_relD [OF rel]
  let ?ns = "List.map_filter (nodes s) (heap s)"
  have set_ns: "set ?ns = {n. \<exists>k. nodes s k = Some n}"
    unfolding set_map_filter using D(1) by auto
  obtain k0 where "k0 \<in> dom (nodes s)" using ne by blast
  then obtain n0 where "nodes s k0 = Some n0" by auto
  then have "n0 \<in> set ?ns" using set_ns by blast
  then have "?ns \<noteq> []" by auto
  then obtain b bs where ns: "?ns = b # bs" by (cases ?ns) auto
  then have top: "heap_top (nodes s) (heap s) = Some (best_node b bs)"
    by (simp add: heap_top_def)
  have mem: "best_node b bs \<in> set ?ns"
    and least: "\<forall>n \<in> set ?ns. \<not> HeapNodeCompare n (best_node b bs)"
    using best_node_least [of b bs] ns by simp_all
  from mem obtain k where "nodes s k = Some (best_node b bs)" using set_ns by auto
  moreover have "\<not> HeapNodeCompare n' (best_node b bs)" if "nodes s k' = Some n'" for k' n'
    using least set_ns that by auto
  ultimately show ?thesis using top by blast
qed

lemma dom_last_update_foldl:
  "dom (snd (foldl last_update_step tm ops)) = foldl key_set_step (dom (snd tm)) ops"
proof (induction ops arbitrary: tm)
  case Nil
  then show ?case by simp
next
  case (Cons op ops)
  obtain t m where tm: "tm = (t, m)" by (cases tm)
  have "dom (snd (last_update_step tm op)) = key_set_step (dom (snd tm)) op"
    by (cases op) (auto simp: tm)
  then show ?case using Cons.IH [of "last_update_step tm op"] by simp
qed

lemma dom_last_update: "dom (last_update ops) = key_set ops"
  using dom_last_update_foldl [of "(0, Map.empty)" ops]
  by (simp add: last_update_def key_set_def)

text \<open>
  C4. After any sequence of calls that leaves a key present,
  \<^verbatim>\<open>HeapSelector::Sample\<close> returns, with probability field 1, the key at
  the root of the heap: no other present key has a smaller sign-adjusted
  priority (the priority of its last Insert or Update times the sign), and
  every other present key with the same sign-adjusted priority had its last
  Insert or Update earlier in the sequence.
\<close>

theorem heap_sample_order:
  assumes "key_set ops \<noteq> {}"
  shows "\<exists>k p t.
           Heap_Sample (Heap_run min_heap ops) = Some \<lparr>key = k, probability = 1\<rparr> \<and>
           last_update ops k = Some (p, t) \<and>
           (\<forall>k' p' t'. k' \<noteq> k \<and> last_update ops k' = Some (p', t') \<longrightarrow>
              p * heap_sign (Heap_init min_heap) < p' * heap_sign (Heap_init min_heap) \<or>
              (p * heap_sign (Heap_init min_heap) = p' * heap_sign (Heap_init min_heap) \<and>
               t' < t))"
proof -
  let ?s = "Heap_run min_heap ops"
  obtain T m where tm: "foldl last_update_step (0, Map.empty) ops = (T, m)"
    by (cases "foldl last_update_step (0, Map.empty) ops")
  then have m: "last_update ops = m" by (simp add: last_update_def)
  have rel: "heap_rel ?s (T, m)" using heap_rel_run [of min_heap ops] tm by simp
  note D = heap_relD [OF rel]
  have sg: "heap_sign ?s = heap_sign (Heap_init min_heap)"
    by (simp add: Heap_run_def heap_sign_foldl)
  have ne: "dom (nodes ?s) \<noteq> {}" using assms heap_dom_run by simp
  from heap_top_least [OF rel ne] obtain k n where
    top: "heap_top (nodes ?s) (heap ?s) = Some n" and n: "nodes ?s k = Some n"
    and least: "\<And>k' n'. nodes ?s k' = Some n' \<Longrightarrow> \<not> HeapNodeCompare n' n"
    by blast
  have key: "node_key n = k" using D(3) [OF n] .
  obtain p t where pt: "m k = Some (p, t)" "priority n = p * heap_sign ?s"
    using D(5) [OF n] by blast
  have sample: "Heap_Sample ?s = Some \<lparr>key = k, probability = 1\<rparr>"
    using ne top key by (simp add: Heap_Sample_def)
  have "p * heap_sign ?s < p' * heap_sign ?s \<or> (p * heap_sign ?s = p' * heap_sign ?s \<and> t' < t)"
    if k': "k' \<noteq> k" "m k' = Some (p', t')" for k' p' t'
  proof -
    have "k' \<in> dom (nodes ?s)" using D(2) k'(2) by auto
    then obtain n' where n': "nodes ?s k' = Some n'" by auto
    have pr: "priority n' = p' * heap_sign ?s" using D(5) [OF n'] k'(2) by auto
    have ncmp: "\<not> HeapNodeCompare n' n" using least [OF n'] .
    have neq: "update_number n \<noteq> update_number n'" using D(6) [OF n n'] k'(1) by auto
    have iso: "update_number n' < update_number n \<longleftrightarrow> t' < t"
      using D(7) [OF n' n k'(2) pt(1)] .
    show ?thesis using ncmp neq iso pr pt(2) by (auto simp: HeapNodeCompare_def)
  qed
  then show ?thesis using sample pt(1) m sg by auto
qed

theorem heap_sample_order_witness:
  "key_set [Insert 1 5, Insert 2 3, Insert 3 3, Update 2 3] \<noteq> {} \<and>
   Heap_Sample (Heap_run True [Insert 1 5, Insert 2 3, Insert 3 3, Update 2 3])
     = Some \<lparr>key = 2, probability = 1\<rparr> \<and>
   (\<exists>k p t.
      Heap_Sample (Heap_run True [Insert 1 5, Insert 2 3, Insert 3 3, Update 2 3])
        = Some \<lparr>key = k, probability = 1\<rparr> \<and>
      last_update [Insert 1 5, Insert 2 3, Insert 3 3, Update 2 3] k = Some (p, t))"
proof -
  have h: "key_set [Insert 1 5, Insert 2 3, Insert 3 3, Update 2 3] \<noteq> {}"
    by (simp add: key_set_def)
  have e: "Heap_Sample (Heap_run True [Insert 1 5, Insert 2 3, Insert 3 3, Update 2 3])
     = Some \<lparr>key = 2, probability = 1\<rparr>"
    by (simp add: Heap_Sample_def Heap_run_def Heap_init_def Heap_Insert_def Heap_Update_def
        heap_Push_def heap_Adjust_def heap_top_def HeapNodeCompare_def)
  show ?thesis using heap_sample_order [OF h, of True] h e by blast
qed

section \<open>The contract of the selectors\<close>

lemma lifo_status:
  "code (fst (Lifo_Insert (Lifo_run ops) k p)) = (if k \<in> key_set ops then kInvalidArgument else kOk)"
  "code (fst (Lifo_Delete (Lifo_run ops) k)) = (if k \<in> key_set ops then kOk else kInvalidArgument)"
  "code (fst (Lifo_Update (Lifo_run ops) k p)) = (if k \<in> key_set ops then kOk else kInvalidArgument)"
  using lifo_dom_run [of ops]
  by (auto simp: Lifo_Insert_def Lifo_Delete_def Lifo_Update_def Let_def OkStatus_def
        InvalidArgumentError_def split: option.splits)

lemma lifo_Sample_None: "Lifo_Sample (Lifo_run ops) = None \<longleftrightarrow> key_set ops = {}"
  using lifo_keys_empty [of ops] by (simp add: Lifo_Sample_def)

lemma uniform_status:
  "code (fst (Uniform_Insert (Uniform_run ops) k p)) = (if k \<in> key_set ops then kInvalidArgument else kOk)"
  "code (fst (Uniform_Delete (Uniform_run ops) k)) = (if k \<in> key_set ops then kOk else kInvalidArgument)"
  "code (fst (Uniform_Update (Uniform_run ops) k p)) = (if k \<in> key_set ops then kOk else kInvalidArgument)"
  by (simp_all add: uniform_Insert_status uniform_Delete_status uniform_Update_status
        OkStatus_def InvalidArgumentError_def)

lemma heap_status:
  "code (fst (Heap_Insert (Heap_run mh ops) k p)) = (if k \<in> key_set ops then kInvalidArgument else kOk)"
  "code (fst (Heap_Delete (Heap_run mh ops) k)) = (if k \<in> key_set ops then kOk else kInvalidArgument)"
  "code (fst (Heap_Update (Heap_run mh ops) k p)) = (if k \<in> key_set ops then kOk else kInvalidArgument)"
  using heap_dom_run [of mh ops]
  by (auto simp: Heap_Insert_def Heap_Delete_def Heap_Update_def Let_def OkStatus_def
        InvalidArgumentError_def split: option.splits)

lemma heap_Sample_None: "Heap_Sample (Heap_run mh ops) = None \<longleftrightarrow> key_set ops = {}"
proof (cases "key_set ops = {}")
  case True
  then show ?thesis using heap_dom_run [of mh ops] by (simp add: Heap_Sample_def)
next
  case False
  obtain T m where tm: "foldl last_update_step (0, Map.empty) ops = (T, m)"
    by (cases "foldl last_update_step (0, Map.empty) ops")
  have rel: "heap_rel (Heap_run mh ops) (T, m)" using heap_rel_run [of mh ops] tm by simp
  have ne: "dom (nodes (Heap_run mh ops)) \<noteq> {}" using False heap_dom_run by simp
  from heap_top_least [OF rel ne] show ?thesis using False ne by (auto simp: Heap_Sample_def)
qed

text \<open>
  C1. In every state that the uniform, the LIFO and the heap selector reach by
  a sequence of Insert, Delete, Update and Clear calls, with the key set being
  the keys the sequence leaves present (which are the keys the selector
  holds): Insert answers \<^verbatim>\<open>InvalidArgument\<close> when the key is present and OK
  otherwise; Delete and Update answer \<^verbatim>\<open>InvalidArgument\<close> when the key is
  not present and OK otherwise; and the check at the start of Sample fails
  exactly when the key set is empty.
\<close>

theorem selector_contract:
  "code (fst (Uniform_Insert (Uniform_run ops) k p))
     = (if k \<in> key_set ops then kInvalidArgument else kOk) \<and>
   code (fst (Uniform_Delete (Uniform_run ops) k))
     = (if k \<in> key_set ops then kOk else kInvalidArgument) \<and>
   code (fst (Uniform_Update (Uniform_run ops) k p))
     = (if k \<in> key_set ops then kOk else kInvalidArgument) \<and>
   (Uniform_Sample (Uniform_run ops) i = None) = (key_set ops = {}) \<and>
   set (uniform_keys (Uniform_run ops)) = key_set ops \<and>
   code (fst (Lifo_Insert (Lifo_run ops) k p))
     = (if k \<in> key_set ops then kInvalidArgument else kOk) \<and>
   code (fst (Lifo_Delete (Lifo_run ops) k))
     = (if k \<in> key_set ops then kOk else kInvalidArgument) \<and>
   code (fst (Lifo_Update (Lifo_run ops) k p))
     = (if k \<in> key_set ops then kOk else kInvalidArgument) \<and>
   (Lifo_Sample (Lifo_run ops) = None) = (key_set ops = {}) \<and>
   snd ` set (lifo_keys (Lifo_run ops)) = key_set ops \<and>
   code (fst (Heap_Insert (Heap_run min_heap ops) k p))
     = (if k \<in> key_set ops then kInvalidArgument else kOk) \<and>
   code (fst (Heap_Delete (Heap_run min_heap ops) k))
     = (if k \<in> key_set ops then kOk else kInvalidArgument) \<and>
   code (fst (Heap_Update (Heap_run min_heap ops) k p))
     = (if k \<in> key_set ops then kOk else kInvalidArgument) \<and>
   (Heap_Sample (Heap_run min_heap ops) = None) = (key_set ops = {}) \<and>
   dom (nodes (Heap_run min_heap ops)) = key_set ops"
proof -
  have "snd ` set (lifo_keys (Lifo_run ops)) = key_set ops"
    using lifo_run [of ops] keylist_inv_dom [of "lifo_keys (Lifo_run ops)"] lifo_dom_run [of ops]
    by auto
  then show ?thesis
    by (simp only: uniform_status lifo_status heap_status uniform_Sample_None lifo_Sample_None
        heap_Sample_None uniform_set_run heap_dom_run simp_thms)
qed

text \<open>
  C10. In any state of the uniform, the LIFO and the heap selector, a call of
  Insert, Delete or Update that does not answer OK leaves the whole selector
  state as it was: the key set, the order and priorities, the bookkeeping
  (index map, iterator map, update counter), and with them the answer of any
  later Sample.
\<close>

theorem failed_selector_call_keeps_state:
  "(code (fst (Uniform_Insert su ki p)) \<noteq> kOk \<longrightarrow> snd (Uniform_Insert su ki p) = su) \<and>
   (code (fst (Uniform_Delete su kd)) \<noteq> kOk \<longrightarrow> snd (Uniform_Delete su kd) = su) \<and>
   (code (fst (Uniform_Update su kd p)) \<noteq> kOk \<longrightarrow> snd (Uniform_Update su kd p) = su) \<and>
   (code (fst (Lifo_Insert sl ki p)) \<noteq> kOk \<longrightarrow> snd (Lifo_Insert sl ki p) = sl) \<and>
   (code (fst (Lifo_Delete sl kd)) \<noteq> kOk \<longrightarrow> snd (Lifo_Delete sl kd) = sl) \<and>
   (code (fst (Lifo_Update sl kd p)) \<noteq> kOk \<longrightarrow> snd (Lifo_Update sl kd p) = sl) \<and>
   (code (fst (Heap_Insert sh ki p)) \<noteq> kOk \<longrightarrow> snd (Heap_Insert sh ki p) = sh) \<and>
   (code (fst (Heap_Delete sh kd)) \<noteq> kOk \<longrightarrow> snd (Heap_Delete sh kd) = sh) \<and>
   (code (fst (Heap_Update sh kd p)) \<noteq> kOk \<longrightarrow> snd (Heap_Update sh kd p) = sh)"
  by (auto simp: Uniform_Insert_def Uniform_Delete_def Uniform_Update_def
        Lifo_Insert_def Lifo_Delete_def Lifo_Update_def
        Heap_Insert_def Heap_Delete_def Heap_Update_def
        emplace_def Let_def OkStatus_def split: option.splits)

text \<open>
  C3. In a reachable state of the uniform selector that holds \<open>n > 0\<close> keys,
  Sample returns, for every index below \<open>n\<close> that the generator may draw, a
  key of the key set together with the probability \<open>1 / n\<close>; and every key
  of the key set is returned for exactly one of the \<open>n\<close> indices, so a
  uniformly drawn index returns each key with probability \<open>1 / n\<close>.
\<close>

theorem uniform_sample_uniform:
  assumes "key_set ops \<noteq> {}"
  shows "(\<forall>i. i < card (key_set ops) \<longrightarrow>
            (\<exists>k. k \<in> key_set ops \<and>
               Uniform_Sample (Uniform_run ops) i
                 = Some \<lparr>key = k, probability = 1 / real (card (key_set ops))\<rparr>)) \<and>
         (\<forall>k. k \<in> key_set ops \<longrightarrow>
            (\<exists>!i. i < card (key_set ops) \<and>
               Uniform_Sample (Uniform_run ops) i
                 = Some \<lparr>key = k, probability = 1 / real (card (key_set ops))\<rparr>))"
proof -
  let ?ks = "uniform_keys (Uniform_run ops)"
  have set: "set ?ks = key_set ops" by (rule uniform_set_run)
  have len: "length ?ks = card (key_set ops)" by (rule uniform_length_run)
  have d: "distinct ?ks" using uniform_inv_run [of ops] by (simp add: uniform_inv_def)
  have ne: "?ks \<noteq> []" using assms set by auto
  have smp: "Uniform_Sample (Uniform_run ops) i =
      Some \<lparr>key = ?ks ! i, probability = 1 / real (card (key_set ops))\<rparr>" for i
    using ne len by (simp add: Uniform_Sample_def)
  have a: "\<exists>k. k \<in> key_set ops \<and>
               Uniform_Sample (Uniform_run ops) i
                 = Some \<lparr>key = k, probability = 1 / real (card (key_set ops))\<rparr>"
    if "i < card (key_set ops)" for i
    using that smp [of i] set len nth_mem [of i ?ks] by auto
  have b: "\<exists>!i. i < card (key_set ops) \<and>
               Uniform_Sample (Uniform_run ops) i
                 = Some \<lparr>key = k, probability = 1 / real (card (key_set ops))\<rparr>"
    if "k \<in> key_set ops" for k
  proof -
    have "k \<in> set ?ks" using that set by simp
    then obtain i where i: "i < length ?ks" "?ks ! i = k" by (auto simp: in_set_conv_nth)
    show ?thesis
    proof (rule ex1I [of _ i])
      show "i < card (key_set ops) \<and> Uniform_Sample (Uniform_run ops) i
                 = Some \<lparr>key = k, probability = 1 / real (card (key_set ops))\<rparr>"
        using i len smp [of i] by simp
    next
      fix j assume "j < card (key_set ops) \<and> Uniform_Sample (Uniform_run ops) j
                 = Some \<lparr>key = k, probability = 1 / real (card (key_set ops))\<rparr>"
      then have "j < length ?ks" "?ks ! j = k" using len smp [of j] by auto
      then show "j = i" using i d nth_eq_iff_index_eq [of ?ks j i] by simp
    qed
  qed
  from a b show ?thesis by blast
qed

theorem failed_selector_call_keeps_state_witness:
  "code (fst (Uniform_Insert (Uniform_run [Insert 1 0]) 1 2)) \<noteq> kOk \<and>
   snd (Uniform_Insert (Uniform_run [Insert 1 0]) 1 2) = Uniform_run [Insert 1 0] \<and>
   code (fst (Uniform_Delete (Uniform_run [Insert 1 0]) 2)) \<noteq> kOk \<and>
   snd (Uniform_Delete (Uniform_run [Insert 1 0]) 2) = Uniform_run [Insert 1 0] \<and>
   code (fst (Uniform_Update (Uniform_run [Insert 1 0]) 2 2)) \<noteq> kOk \<and>
   snd (Uniform_Update (Uniform_run [Insert 1 0]) 2 2) = Uniform_run [Insert 1 0] \<and>
   code (fst (Lifo_Insert (Lifo_run [Insert 1 0]) 1 2)) \<noteq> kOk \<and>
   snd (Lifo_Insert (Lifo_run [Insert 1 0]) 1 2) = Lifo_run [Insert 1 0] \<and>
   code (fst (Lifo_Delete (Lifo_run [Insert 1 0]) 2)) \<noteq> kOk \<and>
   snd (Lifo_Delete (Lifo_run [Insert 1 0]) 2) = Lifo_run [Insert 1 0] \<and>
   code (fst (Lifo_Update (Lifo_run [Insert 1 0]) 2 2)) \<noteq> kOk \<and>
   snd (Lifo_Update (Lifo_run [Insert 1 0]) 2 2) = Lifo_run [Insert 1 0] \<and>
   code (fst (Heap_Insert (Heap_run True [Insert 1 0]) 1 2)) \<noteq> kOk \<and>
   snd (Heap_Insert (Heap_run True [Insert 1 0]) 1 2) = Heap_run True [Insert 1 0] \<and>
   code (fst (Heap_Delete (Heap_run True [Insert 1 0]) 2)) \<noteq> kOk \<and>
   snd (Heap_Delete (Heap_run True [Insert 1 0]) 2) = Heap_run True [Insert 1 0] \<and>
   code (fst (Heap_Update (Heap_run True [Insert 1 0]) 2 2)) \<noteq> kOk \<and>
   snd (Heap_Update (Heap_run True [Insert 1 0]) 2 2) = Heap_run True [Insert 1 0]"
proof -
  have u: "code (fst (Uniform_Insert (Uniform_run [Insert 1 0]) 1 2)) \<noteq> kOk"
    "code (fst (Uniform_Delete (Uniform_run [Insert 1 0]) 2)) \<noteq> kOk"
    "code (fst (Uniform_Update (Uniform_run [Insert 1 0]) 2 2)) \<noteq> kOk"
    by (simp_all add: Uniform_run_def Uniform_init_def Uniform_Insert_def Uniform_Delete_def
        Uniform_Update_def emplace_def Let_def InvalidArgumentError_def)
  have l: "code (fst (Lifo_Insert (Lifo_run [Insert 1 0]) 1 2)) \<noteq> kOk"
    "code (fst (Lifo_Delete (Lifo_run [Insert 1 0]) 2)) \<noteq> kOk"
    "code (fst (Lifo_Update (Lifo_run [Insert 1 0]) 2 2)) \<noteq> kOk"
    by (simp_all add: Lifo_run_def Lifo_init_def Lifo_Insert_def Lifo_Delete_def
        Lifo_Update_def emplace_def list_emplace_begin_def Let_def InvalidArgumentError_def)
  have h: "code (fst (Heap_Insert (Heap_run True [Insert 1 0]) 1 2)) \<noteq> kOk"
    "code (fst (Heap_Delete (Heap_run True [Insert 1 0]) 2)) \<noteq> kOk"
    "code (fst (Heap_Update (Heap_run True [Insert 1 0]) 2 2)) \<noteq> kOk"
    by (simp_all add: Heap_run_def Heap_init_def Heap_Insert_def Heap_Delete_def
        Heap_Update_def InvalidArgumentError_def)
  show ?thesis
    using failed_selector_call_keeps_state
      [of "Uniform_run [Insert 1 0]" 1 2 2 "Lifo_run [Insert 1 0]"
          "Heap_run True [Insert 1 0]"] u l h
    by blast
qed

theorem uniform_sample_uniform_witness:
  "key_set [Insert 1 0, Insert 2 0, Insert 3 0, Delete 1] \<noteq> {} \<and>
   card (key_set [Insert 1 0, Insert 2 0, Insert 3 0, Delete 1]) = 2 \<and>
   Uniform_Sample (Uniform_run [Insert 1 0, Insert 2 0, Insert 3 0, Delete 1]) 0
     = Some \<lparr>key = 3, probability = 1 / 2\<rparr> \<and>
   2 \<in> key_set [Insert 1 0, Insert 2 0, Insert 3 0, Delete 1] \<and>
   (\<exists>!i. i < card (key_set [Insert 1 0, Insert 2 0, Insert 3 0, Delete 1]) \<and>
      Uniform_Sample (Uniform_run [Insert 1 0, Insert 2 0, Insert 3 0, Delete 1]) i
        = Some \<lparr>key = 2,
                 probability =
                   1 / real (card (key_set [Insert 1 0, Insert 2 0, Insert 3 0, Delete 1]))\<rparr>)"
proof -
  have h: "key_set [Insert 1 0, Insert 2 0, Insert 3 0, Delete 1] \<noteq> {}"
    by (simp add: key_set_def)
  have c: "card (key_set [Insert 1 0, Insert 2 0, Insert 3 0, Delete 1]) = 2"
    by (simp add: key_set_def)
  have e: "Uniform_Sample (Uniform_run [Insert 1 0, Insert 2 0, Insert 3 0, Delete 1]) 0
     = Some \<lparr>key = 3, probability = 1 / 2\<rparr>"
    by (simp add: Uniform_Sample_def Uniform_run_def Uniform_init_def Uniform_Insert_def
        Uniform_Delete_def emplace_def Let_def)
  have m: "2 \<in> key_set [Insert 1 0, Insert 2 0, Insert 3 0, Delete 1]"
    by (simp add: key_set_def)
  show ?thesis using uniform_sample_uniform [OF h] h c e m by blast
qed

section \<open>Properties of the writer\<close>

lemma sent_on_append_chunk:
  "sent_on sid (rs @ [(s, ChunkRequest c)]) = sent_on sid rs @ (if s = sid then [c] else [])"
  by (induction sid rs rule: sent_on.induct) auto

lemma sent_on_append_item:
  "sent_on sid (rs @ [(s, ItemRequest it)]) = sent_on sid rs"
  by (induction sid rs rule: sent_on.induct) auto

lemma items_of_append_chunk: "items_of (rs @ [(s, ChunkRequest c)]) = items_of rs"
  by (induction rs rule: items_of.induct) auto

lemma items_of_append_item: "items_of (rs @ [(s, ItemRequest it)]) = items_of rs @ [it]"
  by (induction rs rule: items_of.induct) auto

lemma referenced_append: "referenced (xs @ ys) = referenced xs \<union> referenced ys"
  by (auto simp: referenced_def)

lemma referenced_Cons: "referenced (x # xs) = set (item_chunk_keys x) \<union> referenced xs"
  by (auto simp: referenced_def)

lemma chunks_needed_mono:
  "referenced p \<subseteq> referenced p' \<Longrightarrow> chunks_needed rs p \<Longrightarrow> chunks_needed rs p'"
  by (induction rs p rule: chunks_needed.induct) (auto simp: referenced_append)

lemma chunks_needed_append_chunk:
  "chunks_needed (rs @ [(s, ChunkRequest c)]) p \<longleftrightarrow> chunks_needed rs p \<and> c \<in> referenced p"
  by (induction rs p rule: chunks_needed.induct)
     (auto simp: referenced_append items_of_append_chunk)

lemma chunks_needed_append_item:
  "chunks_needed (rs @ [(s, ItemRequest it)]) p \<longleftrightarrow> chunks_needed rs (it # p)"
  by (induction rs p rule: chunks_needed.induct)
     (auto simp: referenced_append items_of_append_item referenced_Cons)

lemma write_items_inv:
  assumes "writer_inv w" "pending_items w = its"
  shows "writer_inv (snd (write_items its w))"
  using assms
proof (induction its arbitrary: w)
  case Nil
  then show ?case by simp
next
  case (Cons it rest)
  show ?case
  proof (cases "stream w")
    case None
    then show ?thesis using Cons.prems by simp
  next
    case (Some s)
    let ?w1 = "w\<lparr>stream := Some (snd (FakeInsertStream_Write s)),
                  requests := requests w @ [(stream_id w, ItemRequest it)]\<rparr>"
    have "chunks_needed (requests w) (it # it # rest)"
      using Cons.prems
      by (auto simp: writer_inv_def log_inv_def referenced_Cons
            elim: chunks_needed_mono [rotated])
    then have inv1: "writer_inv ?w1"
      using Cons.prems Some
      by (auto simp: writer_inv_def log_inv_def sent_on_append_item chunks_needed_append_item)
    show ?thesis
    proof (cases "fst (FakeInsertStream_Write s)")
      case False
      then show ?thesis using Some inv1 by (simp add: Let_def)
    next
      case True
      let ?w2 = "?w1\<lparr>pending_items := rest\<rparr>"
      have inv2: "writer_inv ?w2"
        using Cons.prems Some
        by (auto simp: writer_inv_def log_inv_def sent_on_append_item chunks_needed_append_item)
      have "writer_inv (snd (write_items rest ?w2))"
        by (rule Cons.IH [OF inv2]) simp
      then show ?thesis using Some True by (simp add: Let_def)
    qed
  qed
qed

lemma write_chunks_inv:
  assumes "writer_inv w" "distinct cs" "set cs \<inter> set (streamed_chunk_keys w) = {}"
    "set cs \<subseteq> referenced (pending_items w)"
  shows "log_inv (snd (write_chunks cs w)) \<and>
         (fst (write_chunks cs w) \<longrightarrow> writer_inv (snd (write_chunks cs w)))"
  using assms
proof (induction cs arbitrary: w)
  case Nil
  then show ?case by (simp add: writer_inv_def)
next
  case (Cons c cs)
  show ?case
  proof (cases "stream w")
    case None
    then show ?thesis using Cons.prems by (simp add: writer_inv_def)
  next
    case (Some s)
    let ?w1 = "w\<lparr>stream := Some (snd (FakeInsertStream_Write s)),
                  requests := requests w @ [(stream_id w, ChunkRequest c)]\<rparr>"
    have sub: "set (sent_on (stream_id w) (requests w)) \<subseteq> set (streamed_chunk_keys w)"
      using Cons.prems(1) Some by (simp add: writer_inv_def)
    have c: "c \<notin> set (streamed_chunk_keys w)" "c \<in> referenced (pending_items w)"
      using Cons.prems by auto
    then have new: "c \<notin> set (sent_on (stream_id w) (requests w))" using sub by auto
    have log1: "log_inv ?w1"
      using Cons.prems(1) c new
      by (auto simp: writer_inv_def log_inv_def sent_on_append_chunk chunks_needed_append_chunk)
    show ?thesis
    proof (cases "fst (FakeInsertStream_Write s)")
      case False
      then show ?thesis using Some log1 by (simp add: Let_def)
    next
      case True
      let ?w2 = "?w1\<lparr>streamed_chunk_keys := streamed_chunk_keys ?w1 @ [c]\<rparr>"
      have "log_inv ?w2" using log1 by (simp add: log_inv_def)
      then have inv2: "writer_inv ?w2"
        using sub by (auto simp: writer_inv_def sent_on_append_chunk)
      have "log_inv (snd (write_chunks cs ?w2)) \<and>
            (fst (write_chunks cs ?w2) \<longrightarrow> writer_inv (snd (write_chunks cs ?w2)))"
        by (rule Cons.IH [OF inv2]) (use Cons.prems in auto)
      then show ?thesis using Some True by (simp add: Let_def)
    qed
  qed
qed

lemma unsent_chunks_props:
  "distinct (unsent_chunks w) \<and>
   set (unsent_chunks w) \<inter> set (streamed_chunk_keys w) = {} \<and>
   set (unsent_chunks w) \<subseteq> referenced (pending_items w)"
  by (auto simp: unsent_chunks_def referenced_def)

lemma open_stream_inv:
  assumes "writer_inv w" "open_stream w = Some w1"
  shows "writer_inv w1 \<and> stream w1 \<noteq> None"
  using assms
  by (auto simp: open_stream_def writer_inv_def log_inv_def split: option.splits list.splits)

lemma WritePendingData_inv:
  assumes "writer_inv w" "WritePendingData w = Some r"
  shows "log_inv (snd r) \<and> (fst r \<longrightarrow> writer_inv (snd r))"
proof -
  obtain w1 where o: "open_stream w = Some w1" using assms(2)
    by (auto simp: WritePendingData_def split: option.splits)
  have inv1: "writer_inv w1" using open_stream_inv [OF assms(1) o] by simp
  let ?sent = "write_chunks (unsent_chunks w1) w1"
  have c: "log_inv (snd ?sent) \<and> (fst ?sent \<longrightarrow> writer_inv (snd ?sent))"
    using write_chunks_inv [OF inv1] unsent_chunks_props [of w1] by blast
  show ?thesis
  proof (cases "fst ?sent")
    case False
    then have "r = ?sent" using assms(2) o by (simp add: WritePendingData_def Let_def)
    then show ?thesis using c False by simp
  next
    case True
    then have r: "r = write_items (pending_items (snd ?sent)) (snd ?sent)"
      using assms(2) o by (simp add: WritePendingData_def Let_def)
    have "writer_inv (snd ?sent)" using c True by simp
    then have "writer_inv (snd r)" unfolding r by (rule write_items_inv) simp
    then show ?thesis by (simp add: writer_inv_def)
  qed
qed

lemma close_stream_inv: "log_inv w \<Longrightarrow> writer_inv (snd (close_stream w))"
  by (auto simp: close_stream_def writer_inv_def log_inv_def split: option.splits)

lemma WriteWithRetries_inv:
  "writer_inv w \<Longrightarrow> WriteWithRetries retry w = Some r \<Longrightarrow> writer_inv (snd r)"
proof (induction retry w arbitrary: r rule: WriteWithRetries.induct)
  case (1 retry w)
  show ?case
  proof (cases "pending_items w = []")
    case True
    then show ?thesis using "1.prems" by (auto simp: WriteWithRetries.simps)
  next
    case False
    then obtain p where p: "WritePendingData w = Some p"
      using "1.prems"(2) by (auto simp: WriteWithRetries.simps split: option.splits)
    note P = WritePendingData_inv [OF "1.prems"(1) p]
    show ?thesis
    proof (cases "fst p")
      case True
      then show ?thesis using "1.prems"(2) False p P by (auto simp: WriteWithRetries.simps)
    next
      case nok: False
      have ci: "writer_inv (snd (close_stream (snd p)))" using P close_stream_inv by blast
      show ?thesis
      proof (cases "IsTransient (fst (close_stream (snd p))) \<and> retry")
        case True
        then have "WriteWithRetries retry (snd (close_stream (snd p))) = Some r"
          using "1.prems"(2) False p nok by (simp add: WriteWithRetries.simps)
        then show ?thesis using "1.IH" [OF False p nok _ _ ci] True by blast
      next
        case False
        then have "snd r = snd (close_stream (snd p))"
          using "1.prems"(2) \<open>pending_items w \<noteq> []\<close> p nok
          by (auto simp: WriteWithRetries.simps split: if_splits)
        then show ?thesis using ci by simp
      qed
    qed
  qed
qed


lemma writer_inv_frame:
  assumes "writer_inv w" "requests w' = requests w" "stream_id w' = stream_id w"
    "stream w' = stream w" "streamed_chunk_keys w' = streamed_chunk_keys w"
    "referenced (pending_items w) \<subseteq> referenced (pending_items w')"
  shows "writer_inv w'"
  using assms chunks_needed_mono [of "pending_items w" "pending_items w'" "requests w"]
  by (auto simp: writer_inv_def log_inv_def)

lemma Finish_inv:
  assumes "writer_inv w" "Finish retry w = Some r"
  shows "writer_inv (snd r)"
proof -
  let ?w = "if 0 < buffer w
            then w\<lparr>chunks := chunks w @ [(sum_list (map snd (chunks w)), buffer w)], buffer := 0\<rparr>
            else w"
  have "writer_inv ?w" by (rule writer_inv_frame [OF assms(1)]) simp_all
  then show ?thesis using assms(2) WriteWithRetries_inv unfolding Finish_def by blast
qed

lemma Writer_apply_inv:
  assumes inv: "writer_inv w" and r: "Writer_apply w op = Some r"
  shows "writer_inv (snd r)"
proof (cases op)
  case Append
  have "writer_inv (w\<lparr>buffer := Suc (buffer w)\<rparr>)"
    by (rule writer_inv_frame [OF inv]) simp_all
  then show ?thesis
    using r inv Append Finish_inv [of "w\<lparr>buffer := Suc (buffer w)\<rparr>" True r]
    by (auto simp: Writer_Append_def split: if_splits)
next
  case (CreateItem table n prio)
  let ?w = "w\<lparr>pending_items := pending_items w @ [make_item w table n prio]\<rparr>"
  have "writer_inv ?w"
    by (rule writer_inv_frame [OF inv]) (simp_all add: referenced_append)
  then show ?thesis
    using r inv CreateItem WriteWithRetries_inv [of ?w True r]
    by (auto simp: Writer_CreateItem_def split: if_splits)
next
  case Flush
  then show ?thesis
    using r inv Finish_inv [of w True r]
    by (auto simp: Writer_Flush_def split: if_splits)
next
  case (Close retry)
  show ?thesis
  proof (cases "writer_closed w")
    case True
    then show ?thesis using r inv Close by (auto simp: Writer_Close_def)
  next
    case False
    then obtain q where q: "(if pending_items w = [] then Some (OkStatus, w)
                             else Finish retry w) = Some q"
      using r Close by (auto simp: Writer_Close_def split: option.splits)
    have qi: "writer_inv (snd q)"
      using q inv Finish_inv [of w retry q] by (auto split: if_splits)
    then have "log_inv (snd q)" by (simp add: writer_inv_def)
    then have "writer_inv (snd (close_stream (snd q)))" by (rule close_stream_inv)
    then have "writer_inv ((snd (close_stream (snd q)))\<lparr>writer_closed := True\<rparr>)"
      by (rule writer_inv_frame) simp_all
    then show ?thesis
      using r Close False q qi by (auto simp: Writer_Close_def split: if_splits)
  qed
qed

lemma Writer_run_inv:
  "writer_inv w \<Longrightarrow> Writer_run ops w = Some r \<Longrightarrow> writer_inv (snd r)"
proof (induction ops arbitrary: w r)
  case Nil
  then show ?case by auto
next
  case (Cons op ops)
  from Cons.prems(2) obtain a b where a: "Writer_apply w op = Some a"
    and b: "Writer_run ops (snd a) = Some b" and r: "snd r = snd b"
    by (auto split: option.splits)
  have "writer_inv (snd a)" using Writer_apply_inv [OF Cons.prems(1) a] .
  then show ?case using Cons.IH b r by auto
qed

lemma writer_inv_new: "writer_inv (Writer_new stub cl mt)"
  by (simp add: writer_inv_def log_inv_def Writer_new_def)

text \<open>
  C7. After any sequence of Append, CreateItem, Flush and Close calls on a
  new writer, whatever streams the stub hands out: on each stream every chunk
  is written at most once, so a chunk already sent on the current stream is
  not sent again when a later item refers to it; and every chunk request in
  the log, on the first stream or on one opened after a failure, is for a
  chunk that an item written after it or an item still pending refers to.
\<close>

theorem writer_sends_chunk_once_per_stream:
  assumes "Writer_run ops (Writer_new stub cl mt) = Some (statuses, w)"
  shows "distinct (sent_on sid (requests w)) \<and>
         chunks_needed (requests w) (pending_items w)"
  using Writer_run_inv [OF writer_inv_new assms]
  by (simp add: writer_inv_def log_inv_def)

section \<open>The writer against its tests, and its retries\<close>

lemmas writer_eval =
  run_summary_def Writer_new_def MakeFlakyStub_def MakeGoodStub_def UnavailableError_def
  InternalError_def Writer_Append_def Writer_CreateItem_def Writer_Flush_def Writer_Close_def
  Finish_def WriteWithRetries.simps WritePendingData_def open_stream_def close_stream_def
  unsent_chunks_def make_item_def chunk_bounds_def num_timesteps_def
  FakeInsertStream_Write_def FakeInsertStream_WritesDone_def FakeInsertStream_Finish_def
  IsTransient_def OkStatus_def ok_def Let_def

text \<open>The model against the tests of the writer: the requests the fake
  streams record and the statuses the calls return.\<close>

lemma test_DoesNotSendAlreadySentChunks:
  "run_summary
     (Writer_run [Append, Append, CreateItem ''dist'' 1 (3 / 2),
                  Append, Append, CreateItem ''dist'' 3 (13 / 10)]
        (Writer_new MakeGoodStub 2 10))
   = Some ([kOk, kOk, kOk, kOk, kOk, kOk], 1,
       [(1, ChunkRequest 0),
        (1, ItemRequest \<lparr>item_table = ''dist'', item_priority = 3 / 2, item_chunk_keys = [0],
                           item_offset = 1, item_length = 1\<rparr>),
        (1, ChunkRequest 1),
        (1, ItemRequest \<lparr>item_table = ''dist'', item_priority = 13 / 10,
                           item_chunk_keys = [0, 1], item_offset = 1, item_length = 3\<rparr>)])"
  by (simp add: writer_eval)

lemma test_ResendsOnlyTheChunksTheRemainingItemsNeedWithNewStream:
  "run_summary
     (Writer_run [Append, Append, Append, CreateItem ''dist'' 3 1, CreateItem ''dist2'' 1 1, Append]
        (Writer_new (MakeFlakyStub 3 1 (UnavailableError [])) 2 10))
   = Some ([kOk, kOk, kOk, kOk, kOk, kOk], 2,
       [(1, ChunkRequest 0), (1, ChunkRequest 1),
        (1, ItemRequest \<lparr>item_table = ''dist'', item_priority = 1, item_chunk_keys = [0, 1],
                           item_offset = 0, item_length = 3\<rparr>),
        (1, ItemRequest \<lparr>item_table = ''dist2'', item_priority = 1, item_chunk_keys = [1],
                           item_offset = 0, item_length = 1\<rparr>),
        (2, ChunkRequest 1),
        (2, ItemRequest \<lparr>item_table = ''dist2'', item_priority = 1, item_chunk_keys = [1],
                           item_offset = 0, item_length = 1\<rparr>)])"
  by (simp add: writer_eval)

lemma test_RetriesOnTransientError:
  "run_summary
     (Writer_run [Append, Append, CreateItem ''dist'' 1 1]
        (Writer_new (MakeFlakyStub 0 1 (UnavailableError [])) 2 10))
   = Some ([kOk, kOk, kOk], 2,
       [(1, ChunkRequest 0), (2, ChunkRequest 0),
        (2, ItemRequest \<lparr>item_table = ''dist'', item_priority = 1, item_chunk_keys = [0],
                           item_offset = 1, item_length = 1\<rparr>)])"
  by (simp add: writer_eval)

lemma test_DoesNotRetryOnNonTransientError:
  "run_summary
     (Writer_run [Append, Append, CreateItem ''dist'' 1 1]
        (Writer_new (MakeFlakyStub 0 1 (InternalError [])) 2 10))
   = Some ([kOk, kOk, kInternal], 1, [(1, ChunkRequest 0)])"
  by (simp add: writer_eval)

lemma test_ReturnsCloseErrorsIfAllItemsNotWritten:
  "run_summary
     (Writer_run [Append, CreateItem ''dist'' 1 1, Close True]
        (Writer_new (MakeFlakyStub 1 1 (InternalError [])) 2 4))
   = Some ([kOk, kOk, kInternal], 1,
       [(1, ChunkRequest 0),
        (1, ItemRequest \<lparr>item_table = ''dist'', item_priority = 1, item_chunk_keys = [0],
                           item_offset = 0, item_length = 1\<rparr>)])"
  by (simp add: writer_eval)

lemma test_IgnoresCloseErrorsIfAllItemsWritten:
  "run_summary
     (Writer_run [Append, CreateItem ''dist'' 1 1, Close True]
        (Writer_new (MakeFlakyStub 2 1 (InternalError [])) 1 2))
   = Some ([kOk, kOk, kOk], 1,
       [(1, ChunkRequest 0),
        (1, ItemRequest \<lparr>item_table = ''dist'', item_priority = 1, item_chunk_keys = [0],
                           item_offset = 0, item_length = 1\<rparr>)])"
  by (simp add: writer_eval)

lemma test_MultiChunkItemsAreCorrect:
  "run_summary
     (Writer_run [Append, Append, CreateItem ''dist'' 2 1, Append, Append,
                  CreateItem ''dist'' 2 1, Append, CreateItem ''dist'' 1 1, Close True]
        (Writer_new MakeGoodStub 3 4))
   = Some ([kOk, kOk, kOk, kOk, kOk, kOk, kOk, kOk, kOk], 1,
       [(1, ChunkRequest 0),
        (1, ItemRequest \<lparr>item_table = ''dist'', item_priority = 1, item_chunk_keys = [0],
                           item_offset = 0, item_length = 2\<rparr>),
        (1, ChunkRequest 1),
        (1, ItemRequest \<lparr>item_table = ''dist'', item_priority = 1, item_chunk_keys = [0, 1],
                           item_offset = 2, item_length = 2\<rparr>),
        (1, ItemRequest \<lparr>item_table = ''dist'', item_priority = 1, item_chunk_keys = [1],
                           item_offset = 1, item_length = 1\<rparr>)])"
  by (simp add: writer_eval)

theorem writer_sends_chunk_once_per_stream_witness:
  "\<exists>statuses w.
     Writer_run [Append, Append, Append, CreateItem ''dist'' 3 1, CreateItem ''dist2'' 1 1, Append]
       (Writer_new (MakeFlakyStub 3 1 (UnavailableError [])) 2 10) = Some (statuses, w) \<and>
     sent_on 1 (requests w) = [0, 1] \<and> sent_on 2 (requests w) = [1] \<and>
     distinct (sent_on 1 (requests w)) \<and> distinct (sent_on 2 (requests w)) \<and>
     chunks_needed (requests w) (pending_items w)"
proof -
  let ?run = "Writer_run [Append, Append, Append, CreateItem ''dist'' 3 1,
                          CreateItem ''dist2'' 1 1, Append]
                (Writer_new (MakeFlakyStub 3 1 (UnavailableError [])) 2 10)"
  from test_ResendsOnlyTheChunksTheRemainingItemsNeedWithNewStream
  obtain r where r: "?run = Some r"
    and rq: "requests (snd r) =
       [(1, ChunkRequest 0), (1, ChunkRequest 1),
        (1, ItemRequest \<lparr>item_table = ''dist'', item_priority = 1, item_chunk_keys = [0, 1],
                           item_offset = 0, item_length = 3\<rparr>),
        (1, ItemRequest \<lparr>item_table = ''dist2'', item_priority = 1, item_chunk_keys = [1],
                           item_offset = 0, item_length = 1\<rparr>),
        (2, ChunkRequest 1),
        (2, ItemRequest \<lparr>item_table = ''dist2'', item_priority = 1, item_chunk_keys = [1],
                           item_offset = 0, item_length = 1\<rparr>)]"
    unfolding run_summary_def by auto
  obtain statuses w where sw: "r = (statuses, w)" by (cases r)
  have run: "?run = Some (statuses, w)" using r sw by simp
  have s: "sent_on 1 (requests w) = [0, 1]" "sent_on 2 (requests w) = [1]"
    using rq sw by simp_all
  show ?thesis
    using writer_sends_chunk_once_per_stream [OF run, of 1]
      writer_sends_chunk_once_per_stream [OF run, of 2] run s
    by blast
qed


lemma open_stream_id:
  "open_stream w = Some w1 \<Longrightarrow>
   stream_id w \<le> stream_id w1 \<and> (stream w = None \<longrightarrow> stream_id w < stream_id w1) \<and>
   pending_items w1 = pending_items w"
  by (auto simp: open_stream_def split: option.splits list.splits)

lemma write_items_fail:
  "pending_items w = its \<Longrightarrow> \<not> fst (write_items its w) \<Longrightarrow>
   pending_items (snd (write_items its w)) \<noteq> []"
proof (induction its arbitrary: w)
  case Nil
  then show ?case by simp
next
  case (Cons it rest)
  show ?case
  proof (cases "stream w")
    case None
    then show ?thesis using Cons.prems by simp
  next
    case (Some s)
    show ?thesis
    proof (cases "fst (FakeInsertStream_Write s)")
      case False
      then show ?thesis using Some Cons.prems by (simp add: Let_def)
    next
      case True
      let ?w2 = "w\<lparr>stream := Some (snd (FakeInsertStream_Write s)),
                    requests := requests w @ [(stream_id w, ItemRequest it)],
                    pending_items := rest\<rparr>"
      have "\<not> fst (write_items rest ?w2)" using Cons.prems(2) Some True by (simp add: Let_def)
      then have "pending_items (snd (write_items rest ?w2)) \<noteq> []"
        by (intro Cons.IH) simp_all
      then show ?thesis using Some True by (simp add: Let_def)
    qed
  qed
qed

lemma WritePendingData_id:
  assumes "WritePendingData w = Some r"
  shows "stream_id w \<le> stream_id (snd r)"
    and "stream w = None \<Longrightarrow> stream_id w < stream_id (snd r)"
    and "pending_items w \<noteq> [] \<Longrightarrow> \<not> fst r \<Longrightarrow> pending_items (snd r) \<noteq> []"
proof -
  obtain w1 where o: "open_stream w = Some w1" using assms
    by (auto simp: WritePendingData_def split: option.splits)
  let ?sent = "write_chunks (unsent_chunks w1) w1"
  note f = write_chunks_frame [of "unsent_chunks w1" w1]
  note g = write_items_frame [of "pending_items (snd ?sent)" "snd ?sent"]
  have r: "r = (if \<not> fst ?sent then ?sent else write_items (pending_items (snd ?sent)) (snd ?sent))"
    using assms o by (auto simp: WritePendingData_def Let_def split: if_splits)
  have id: "stream_id (snd r) = stream_id w1" using r f g by (auto split: if_splits)
  show "stream_id w \<le> stream_id (snd r)" using id open_stream_id [OF o] by simp
  show "stream w = None \<Longrightarrow> stream_id w < stream_id (snd r)"
    using id open_stream_id [OF o] by simp
  show "pending_items (snd r) \<noteq> []" if "pending_items w \<noteq> []" "\<not> fst r"
  proof (cases "fst ?sent")
    case False
    then show ?thesis using r f that open_stream_id [OF o] by simp
  next
    case True
    then have "r = write_items (pending_items (snd ?sent)) (snd ?sent)" using r by simp
    then show ?thesis
      using that(2) write_items_fail [of "snd ?sent" "pending_items (snd ?sent)"] by simp
  qed
qed

lemma close_stream_frame:
  "stream (snd (close_stream w)) = None \<and>
   stream_id (snd (close_stream w)) = stream_id w \<and>
   pending_items (snd (close_stream w)) = pending_items w \<and>
   requests (snd (close_stream w)) = requests w"
  by (auto simp: close_stream_def split: option.splits)

lemma WriteWithRetries_id:
  "WriteWithRetries retry w = Some r \<Longrightarrow>
   stream_id w \<le> stream_id (snd r) \<and>
   (stream w = None \<and> pending_items w \<noteq> [] \<longrightarrow> stream_id w < stream_id (snd r))"
proof (induction retry w arbitrary: r rule: WriteWithRetries.induct)
  case (1 retry w)
  show ?case
  proof (cases "pending_items w = []")
    case True
    then show ?thesis using "1.prems" by (auto simp: WriteWithRetries.simps)
  next
    case False
    then obtain p where p: "WritePendingData w = Some p"
      using "1.prems" by (auto simp: WriteWithRetries.simps split: option.splits)
    note P = WritePendingData_id [OF p]
    note C = close_stream_frame [of "snd p"]
    show ?thesis
    proof (cases "fst p")
      case True
      then have "snd r = snd p" using "1.prems" False p by (auto simp: WriteWithRetries.simps)
      then show ?thesis using P by simp
    next
      case nok: False
      show ?thesis
      proof (cases "IsTransient (fst (close_stream (snd p))) \<and> retry")
        case True
        then have "WriteWithRetries retry (snd (close_stream (snd p))) = Some r"
          using "1.prems" False p nok by (simp add: WriteWithRetries.simps)
        then have "stream_id (snd (close_stream (snd p))) \<le> stream_id (snd r)"
          using "1.IH" [OF False p nok] True by blast
        then show ?thesis using P C by auto
      next
        case nr: False
        then have "snd r = snd (close_stream (snd p))"
          using "1.prems" False p nok by (auto simp: WriteWithRetries.simps split: if_splits)
        then show ?thesis using P C by auto
      qed
    qed
  qed
qed

lemma transmission_start_props:
  assumes "transmission_start w call = Some w0"
  shows "pending_items w0 \<noteq> []" "buffer w0 = 0" "\<not> writer_closed w0"
  using assms
  by (cases call; auto simp: cut_chunk_def split: if_splits)+

lemma Finish_cut: "Finish retry w = WriteWithRetries retry (cut_chunk w)"
  by (simp add: Finish_def cut_chunk_def)

lemma Writer_apply_transmits:
  assumes "transmission_start w call = Some w0"
  shows "Writer_apply w call =
     (case call of
        Close retry \<Rightarrow>
          (case WriteWithRetries retry w0 of
             None \<Rightarrow> None
           | Some r \<Rightarrow>
               if \<not> ok (fst r) then Some r
               else Some (OkStatus, (snd (close_stream (snd r)))\<lparr>writer_closed := True\<rparr>))
      | _ \<Rightarrow> WriteWithRetries True w0)"
  using assms
  by (cases call)
     (auto simp: Writer_Append_def Writer_CreateItem_def Writer_Flush_def Writer_Close_def
        Finish_cut split: if_splits)

lemma open_stream_frame:
  "open_stream w = Some w1 \<Longrightarrow>
   buffer w1 = buffer w \<and> writer_closed w1 = writer_closed w \<and> requests w1 = requests w \<and>
   stream w1 \<noteq> None \<and> (stream w = None \<longrightarrow> stream_id w1 = Suc (stream_id w))"
  by (auto simp: open_stream_def split: option.splits list.splits)

lemma write_chunks_requests:
  "set (requests w) \<subseteq> set (requests (snd (write_chunks cs w)))"
proof (induction cs arbitrary: w)
  case Nil
  then show ?case by simp
next
  case (Cons c cs)
  show ?case
  proof (cases "stream w")
    case None
    then show ?thesis by simp
  next
    case (Some s)
    show ?thesis
    proof (cases "fst (FakeInsertStream_Write s)")
      case False
      then show ?thesis using Some by (auto simp: Let_def)
    next
      case True
      let ?w2 = "w\<lparr>stream := Some (snd (FakeInsertStream_Write s)),
                    requests := requests w @ [(stream_id w, ChunkRequest c)],
                    streamed_chunk_keys := streamed_chunk_keys w @ [c]\<rparr>"
      have "set (requests ?w2) \<subseteq> set (requests (snd (write_chunks cs ?w2)))" by (rule Cons.IH)
      then show ?thesis using Some True by (auto simp: Let_def)
    qed
  qed
qed

lemma write_items_requests:
  "set (requests w) \<subseteq> set (requests (snd (write_items its w)))"
proof (induction its arbitrary: w)
  case Nil
  then show ?case by simp
next
  case (Cons it rest)
  show ?case
  proof (cases "stream w")
    case None
    then show ?thesis by simp
  next
    case (Some s)
    show ?thesis
    proof (cases "fst (FakeInsertStream_Write s)")
      case False
      then show ?thesis using Some by (auto simp: Let_def)
    next
      case True
      let ?w2 = "w\<lparr>stream := Some (snd (FakeInsertStream_Write s)),
                    requests := requests w @ [(stream_id w, ItemRequest it)],
                    pending_items := rest\<rparr>"
      have "set (requests ?w2) \<subseteq> set (requests (snd (write_items rest ?w2)))" by (rule Cons.IH)
      then show ?thesis using Some True by (auto simp: Let_def)
    qed
  qed
qed

lemma write_chunks_first:
  assumes "stream w \<noteq> None" "cs \<noteq> []"
  shows "(stream_id w, ChunkRequest (hd cs)) \<in> set (requests (snd (write_chunks cs w)))"
proof -
  obtain c rest where cs: "cs = c # rest" using assms(2) by (cases cs) auto
  obtain s where s: "stream w = Some s" using assms(1) by auto
  show ?thesis
  proof (cases "fst (FakeInsertStream_Write s)")
    case False
    then show ?thesis using cs s by (simp add: Let_def)
  next
    case True
    let ?w2 = "w\<lparr>stream := Some (snd (FakeInsertStream_Write s)),
                  requests := requests w @ [(stream_id w, ChunkRequest c)],
                  streamed_chunk_keys := streamed_chunk_keys w @ [c]\<rparr>"
    have "(stream_id w, ChunkRequest c) \<in> set (requests ?w2)" by simp
    then have "(stream_id w, ChunkRequest c) \<in> set (requests (snd (write_chunks rest ?w2)))"
      using write_chunks_requests [of ?w2 rest] by blast
    then show ?thesis using cs s True by (simp add: Let_def)
  qed
qed

lemma write_items_first:
  assumes "stream w \<noteq> None" "its \<noteq> []"
  shows "(stream_id w, ItemRequest (hd its)) \<in> set (requests (snd (write_items its w)))"
proof -
  obtain it rest where its: "its = it # rest" using assms(2) by (cases its) auto
  obtain s where s: "stream w = Some s" using assms(1) by auto
  show ?thesis
  proof (cases "fst (FakeInsertStream_Write s)")
    case False
    then show ?thesis using its s by (simp add: Let_def)
  next
    case True
    let ?w2 = "w\<lparr>stream := Some (snd (FakeInsertStream_Write s)),
                  requests := requests w @ [(stream_id w, ItemRequest it)],
                  pending_items := rest\<rparr>"
    have "(stream_id w, ItemRequest it) \<in> set (requests ?w2)" by simp
    then have "(stream_id w, ItemRequest it) \<in> set (requests (snd (write_items rest ?w2)))"
      using write_items_requests [of ?w2 rest] by blast
    then show ?thesis using its s True by (simp add: Let_def)
  qed
qed

lemma WritePendingData_frame:
  assumes "WritePendingData w = Some r"
  shows "buffer (snd r) = buffer w" and "writer_closed (snd r) = writer_closed w"
    and "set (requests w) \<subseteq> set (requests (snd r))"
    and "stream w = None \<Longrightarrow> pending_items w \<noteq> [] \<Longrightarrow>
         \<exists>rq. (Suc (stream_id w), rq) \<in> set (requests (snd r))"
proof -
  obtain w1 where o: "open_stream w = Some w1" using assms
    by (auto simp: WritePendingData_def split: option.splits)
  note O = open_stream_frame [OF o] open_stream_id [OF o]
  let ?sent = "write_chunks (unsent_chunks w1) w1"
  let ?its = "write_items (pending_items (snd ?sent)) (snd ?sent)"
  note f = write_chunks_frame [of "unsent_chunks w1" w1]
  note g = write_items_frame [of "pending_items (snd ?sent)" "snd ?sent"]
  note fr = write_chunks_requests [of w1 "unsent_chunks w1"]
  note gr = write_items_requests [of "snd ?sent" "pending_items (snd ?sent)"]
  have r: "r = (if \<not> fst ?sent then ?sent else ?its)"
    using assms o by (auto simp: WritePendingData_def Let_def split: if_splits)
  show "buffer (snd r) = buffer w" using r f g O by (auto split: if_splits)
  show "writer_closed (snd r) = writer_closed w" using r f g O by (auto split: if_splits)
  show "set (requests w) \<subseteq> set (requests (snd r))"
    using r fr gr O by (auto split: if_splits)
  show "\<exists>rq. (Suc (stream_id w), rq) \<in> set (requests (snd r))"
    if n: "stream w = None" and p: "pending_items w \<noteq> []"
  proof -
    have id: "stream_id w1 = Suc (stream_id w)" and s1: "stream w1 \<noteq> None"
      and p1: "pending_items w1 \<noteq> []"
      using O n p by auto
    show ?thesis
    proof (cases "unsent_chunks w1 = []")
      case True
      then have sent: "?sent = (True, w1)" by simp
      then have "r = write_items (pending_items w1) w1" using r by simp
      then show ?thesis using write_items_first [OF s1 p1] id by auto
    next
      case False
      have c: "(stream_id w1, ChunkRequest (hd (unsent_chunks w1))) \<in> set (requests (snd ?sent))"
        by (rule write_chunks_first [OF s1 False])
      then have "(stream_id w1, ChunkRequest (hd (unsent_chunks w1))) \<in> set (requests (snd r))"
        using r gr by (auto split: if_splits)
      then show ?thesis using id by auto
    qed
  qed
qed

lemma close_stream_frame2:
  "buffer (snd (close_stream w)) = buffer w \<and>
   writer_closed (snd (close_stream w)) = writer_closed w \<and>
   stub_streams (snd (close_stream w)) = stub_streams w"
  by (auto simp: close_stream_def split: option.splits)

lemma close_stream_closed: "stream w = None \<Longrightarrow> close_stream w = (OkStatus, w)"
  by (simp add: close_stream_def)

lemma WriteWithRetries_requests:
  "WriteWithRetries retry w = Some r \<Longrightarrow> set (requests w) \<subseteq> set (requests (snd r))"
proof (induction retry w arbitrary: r rule: WriteWithRetries.induct)
  case (1 retry w)
  show ?case
  proof (cases "pending_items w = []")
    case True
    then show ?thesis using "1.prems" by (auto simp: WriteWithRetries.simps)
  next
    case False
    then obtain p where p: "WritePendingData w = Some p"
      using "1.prems" by (auto simp: WriteWithRetries.simps split: option.splits)
    note P = WritePendingData_frame(3) [OF p]
    note C = close_stream_frame [of "snd p"]
    show ?thesis
    proof (cases "fst p")
      case True
      then have "snd r = snd p" using "1.prems" False p by (auto simp: WriteWithRetries.simps)
      then show ?thesis using P by simp
    next
      case nok: False
      show ?thesis
      proof (cases "IsTransient (fst (close_stream (snd p))) \<and> retry")
        case True
        then have "WriteWithRetries retry (snd (close_stream (snd p))) = Some r"
          using "1.prems" False p nok by (simp add: WriteWithRetries.simps)
        then have "set (requests (snd (close_stream (snd p)))) \<subseteq> set (requests (snd r))"
          using "1.IH" [OF False p nok] True by blast
        then show ?thesis using P C by auto
      next
        case nr: False
        then have "snd r = snd (close_stream (snd p))"
          using "1.prems" False p nok by (auto simp: WriteWithRetries.simps split: if_splits)
        then show ?thesis using P C by auto
      qed
    qed
  qed
qed

lemma WriteWithRetries_new_stream:
  assumes "WriteWithRetries retry w = Some r" "stream w = None" "pending_items w \<noteq> []"
  shows "stream_id w < stream_id (snd r)"
    and "\<exists>rq. (Suc (stream_id w), rq) \<in> set (requests (snd r))"
proof -
  show "stream_id w < stream_id (snd r)"
    using WriteWithRetries_id [OF assms(1)] assms(2,3) by simp
  obtain p where p: "WritePendingData w = Some p"
    using assms(1,3) by (auto simp: WriteWithRetries.simps split: option.splits)
  obtain rq where rq: "(Suc (stream_id w), rq) \<in> set (requests (snd p))"
    using WritePendingData_frame(4) [OF p assms(2,3)] by blast
  note C = close_stream_frame [of "snd p"]
  have "set (requests (snd p)) \<subseteq> set (requests (snd r))"
  proof (cases "fst p")
    case True
    then have "snd r = snd p" using assms(1,3) p by (auto simp: WriteWithRetries.simps)
    then show ?thesis by simp
  next
    case nok: False
    show ?thesis
    proof (cases "IsTransient (fst (close_stream (snd p))) \<and> retry")
      case True
      then have "WriteWithRetries retry (snd (close_stream (snd p))) = Some r"
        using assms(1,3) p nok by (simp add: WriteWithRetries.simps)
      then show ?thesis using WriteWithRetries_requests C by fastforce
    next
      case False
      then have "snd r = snd (close_stream (snd p))"
        using assms(1,3) p nok by (auto simp: WriteWithRetries.simps split: if_splits)
      then show ?thesis using C by simp
    qed
  qed
  then show "\<exists>rq. (Suc (stream_id w), rq) \<in> set (requests (snd r))" using rq by blast
qed

lemma WriteWithRetries_failed:
  assumes "pending_items w0 \<noteq> []" "WritePendingData w0 = Some (False, w1)"
  shows "WriteWithRetries retry w0 =
      (if IsTransient (fst (close_stream w1))
       then (if retry then WriteWithRetries retry (snd (close_stream w1))
             else Some (OkStatus, snd (close_stream w1)))
       else Some (close_stream w1))"
  using assms by (simp add: WriteWithRetries.simps)

text \<open>
  C8 (amended). A public call (Append, CreateItem, Flush or Close) has begun
  to write its pending data and a write on the stream fails; the writer has
  closed the stream and holds its status. It retries, which is to say it
  opens the next stream and writes on it, if and only if the status is
  Unavailable or Aborted and the call is not Close with retries disabled; the
  call then answers what Flush (for Close: Close) answers on the writer whose
  stream was closed. Close with retries disabled opens no further stream on
  such a status and returns OK. On every other error code no call opens a
  further stream or writes another request, the items stay pending, and the
  call in progress, which is the next public call to return, returns the
  status of the stream.
\<close>

theorem writer_retries_transient_unless_disabled:
  assumes start: "transmission_start w call = Some w0"
    and failed: "WritePendingData w0 = Some (False, w1)"
    and closed: "close_stream w1 = (st, w2)"
  shows "(\<forall>status wfin. Writer_apply w call = Some (status, wfin) \<longrightarrow>
            (stream_id w1 < stream_id wfin \<longleftrightarrow>
               (code st = kUnavailable \<or> code st = kAborted) \<and> call \<noteq> Close False) \<and>
            ((code st = kUnavailable \<or> code st = kAborted) \<and> call \<noteq> Close False \<longrightarrow>
               (\<exists>rq. (Suc (stream_id w1), rq) \<in> set (requests wfin)))) \<and>
         ((code st = kUnavailable \<or> code st = kAborted) \<and> call \<noteq> Close False \<longrightarrow>
            Writer_apply w call =
            Writer_apply w2 (if call = Close True then Close True else Flush)) \<and>
         ((code st = kUnavailable \<or> code st = kAborted) \<and> call = Close False \<longrightarrow>
            Writer_apply w call = Some (OkStatus, w2\<lparr>writer_closed := True\<rparr>)) \<and>
         (code st \<notin> {kOk, kUnavailable, kAborted} \<longrightarrow>
            Writer_apply w call = Some (st, w2)) \<and>
         stream w2 = None \<and> stream_id w2 = stream_id w1 \<and> requests w2 = requests w1 \<and>
         pending_items w2 = pending_items w1 \<and> pending_items w1 \<noteq> []"
proof -
  let ?tr = "code st = kUnavailable \<or> code st = kAborted"
  note S = transmission_start_props [OF start]
  have st: "st = fst (close_stream w1)" and w2: "w2 = snd (close_stream w1)"
    using closed by simp_all
  have p1: "pending_items w1 \<noteq> []"
    using WritePendingData_id(3) [OF failed] S(1) by simp
  have f1: "buffer w1 = 0" "\<not> writer_closed w1"
    using WritePendingData_frame(1,2) [OF failed] S by simp_all
  have F: "stream w2 = None" "stream_id w2 = stream_id w1" "requests w2 = requests w1"
    "pending_items w2 = pending_items w1" "buffer w2 = 0" "\<not> writer_closed w2"
    using close_stream_frame [of w1] close_stream_frame2 [of w1] f1 w2 by simp_all
  have tr: "IsTransient st \<longleftrightarrow> ?tr" by (simp add: IsTransient_def)
  have U: "WriteWithRetries retry w0 =
      (if ?tr then (if retry then WriteWithRetries retry w2 else Some (OkStatus, w2))
       else Some (st, w2))" for retry
    using WriteWithRetries_failed [OF S(1) failed, of retry] closed tr by simp
  have c2: "close_stream x = (OkStatus, x)" if "stream x = None" for x :: Writer
    using that by (rule close_stream_closed)
  have again: "transmission_start w2 Flush = Some w2" "transmission_start w2 (Close True) = Some w2"
    using F p1 by (simp_all add: cut_chunk_def)
  have flush: "Writer_apply w2 Flush = WriteWithRetries True w2"
    using Writer_apply_transmits [OF again(1)] by simp
  have close: "Writer_apply w2 (Close True) =
      (case WriteWithRetries True w2 of
         None \<Rightarrow> None
       | Some r \<Rightarrow>
           if \<not> ok (fst r) then Some r
           else Some (OkStatus, (snd (close_stream (snd r)))\<lparr>writer_closed := True\<rparr>))"
    using Writer_apply_transmits [OF again(2)] by simp
  have other: "Writer_apply w call = WriteWithRetries True w0" if "\<forall>retry. call \<noteq> Close retry"
    using Writer_apply_transmits [OF start] that by (cases call) auto
  have closing: "Writer_apply w (Close retry) =
      (case WriteWithRetries retry w0 of
         None \<Rightarrow> None
       | Some r \<Rightarrow>
           if \<not> ok (fst r) then Some r
           else Some (OkStatus, (snd (close_stream (snd r)))\<lparr>writer_closed := True\<rparr>))"
    if "call = Close retry" for retry
    using Writer_apply_transmits [OF start] that by simp
  have okst: "ok OkStatus" by (simp add: ok_def OkStatus_def)
  have nok: "\<not> ok st" if "?tr" using that by (auto simp: ok_def)
  have retried: "Writer_apply w call =
      Writer_apply w2 (if call = Close True then Close True else Flush)"
    if t: "?tr" and e: "call \<noteq> Close False"
  proof (cases "call = Close True")
    case True
    then show ?thesis using closing [of True] close U [of True] t by simp
  next
    case False
    then have "\<forall>retry. call \<noteq> Close retry" using e by (metis (full_types))
    then show ?thesis using other flush U [of True] t False by simp
  qed
  have disabled: "Writer_apply w call = Some (OkStatus, w2\<lparr>writer_closed := True\<rparr>)"
    if t: "?tr" and e: "call = Close False"
    using closing [of False] e U [of False] t okst c2 [OF F(1)] by simp
  have surfaced: "Writer_apply w call = Some (st, w2)"
    if n: "code st \<notin> {kOk, kUnavailable, kAborted}"
  proof -
    have nt: "\<not> ?tr" and no: "\<not> ok st" using n by (auto simp: ok_def)
    show ?thesis
    proof (cases "\<exists>retry. call = Close retry")
      case True
      then obtain retry where "call = Close retry" by blast
      then show ?thesis using closing [of retry] U [of retry] nt no by simp
    next
      case False
      then show ?thesis using other U [of True] nt by simp
    qed
  qed
  have fin_retried: "stream_id w1 < stream_id wfin \<and>
      (\<exists>rq. (Suc (stream_id w1), rq) \<in> set (requests wfin))"
    if t: "?tr" and e: "call \<noteq> Close False" and r: "Writer_apply w call = Some (status, wfin)"
    for status wfin
  proof -
    have "\<exists>x. WriteWithRetries True w2 = Some x \<and> stream_id wfin = stream_id (snd x) \<and>
              requests wfin = requests (snd x)"
    proof (cases "call = Close True")
      case True
      then have "Writer_apply w2 (Close True) = Some (status, wfin)"
        using retried [OF t e] r by simp
      then show ?thesis
        using close close_stream_frame
        by (auto split: option.splits if_splits)
    next
      case False
      then have "WriteWithRetries True w2 = Some (status, wfin)"
        using retried [OF t e] r flush by simp
      then show ?thesis by simp
    qed
    then obtain x where x: "WriteWithRetries True w2 = Some x"
      and i: "stream_id wfin = stream_id (snd x)" and q: "requests wfin = requests (snd x)"
      by blast
    have p2: "pending_items w2 \<noteq> []" using F p1 by simp
    show ?thesis
      using WriteWithRetries_new_stream [OF x F(1) p2] i q F by simp
  qed
  have fin_not: "stream_id wfin = stream_id w1"
    if ne: "\<not> (?tr \<and> call \<noteq> Close False)" and r: "Writer_apply w call = Some (status, wfin)"
    for status wfin
  proof (cases "?tr")
    case True
    then have "call = Close False" using ne by blast
    then show ?thesis using disabled [OF True] r F by auto
  next
    case False
    show ?thesis
    proof (cases "\<exists>retry. call = Close retry")
      case True
      then obtain retry where "call = Close retry" by blast
      then have "wfin = w2 \<or> wfin = w2\<lparr>writer_closed := True\<rparr>"
        using closing [of retry] U [of retry] False r c2 [OF F(1)]
        by (auto split: if_splits)
      then show ?thesis using F by auto
    next
      case nc: False
      then have "wfin = w2" using other U [of True] False r by simp
      then show ?thesis using F by simp
    qed
  qed
  have all: "\<forall>status wfin. Writer_apply w call = Some (status, wfin) \<longrightarrow>
            (stream_id w1 < stream_id wfin \<longleftrightarrow> ?tr \<and> call \<noteq> Close False) \<and>
            (?tr \<and> call \<noteq> Close False \<longrightarrow>
               (\<exists>rq. (Suc (stream_id w1), rq) \<in> set (requests wfin)))"
    using fin_retried fin_not by (metis less_irrefl)
  show ?thesis
    using all retried disabled surfaced F(1-4) p1 by blast
qed

theorem writer_retries_transient_unless_disabled_witness:
  "fst (close_stream (failed_attempt (writer_after [Append, Append] (UnavailableError []))
                        (CreateItem ''dist'' 1 1))) = UnavailableError [] \<and>
   stream_id (failed_attempt (writer_after [Append, Append] (UnavailableError []))
                (CreateItem ''dist'' 1 1)) = 1 \<and>
   Writer_apply (writer_after [Append, Append] (UnavailableError [])) (CreateItem ''dist'' 1 1)
     = Writer_apply
         (snd (close_stream (failed_attempt (writer_after [Append, Append] (UnavailableError []))
                               (CreateItem ''dist'' 1 1))))
         Flush \<and>
   map_option (\<lambda>r. (code (fst r), stream_id (snd r), requests (snd r)))
     (Writer_apply (writer_after [Append, Append] (UnavailableError []))
        (CreateItem ''dist'' 1 1))
     = Some (kOk, 2,
         [(1, ChunkRequest 0), (2, ChunkRequest 0),
          (2, ItemRequest \<lparr>item_table = ''dist'', item_priority = 1, item_chunk_keys = [0],
                             item_offset = 1, item_length = 1\<rparr>)]) \<and>
   map_option (\<lambda>r. (code (fst r), stream_id (snd r), requests (snd r)))
     (Writer_apply (writer_after [Append, Append] \<lparr>code = kAborted, message = []\<rparr>)
        (CreateItem ''dist'' 1 1))
     = Some (kOk, 2,
         [(1, ChunkRequest 0), (2, ChunkRequest 0),
          (2, ItemRequest \<lparr>item_table = ''dist'', item_priority = 1, item_chunk_keys = [0],
                             item_offset = 1, item_length = 1\<rparr>)]) \<and>
   Writer_apply (writer_after [Append, Append] (InternalError [])) (CreateItem ''dist'' 1 1)
     = Some (InternalError [],
             snd (close_stream (failed_attempt (writer_after [Append, Append] (InternalError []))
                                  (CreateItem ''dist'' 1 1)))) \<and>
   requests (snd (close_stream (failed_attempt (writer_after [Append, Append] (InternalError []))
                                  (CreateItem ''dist'' 1 1))))
     = [(1, ChunkRequest 0)] \<and>
   Writer_apply (writer_after [Append, CreateItem ''dist'' 1 1] (UnavailableError []))
       (Close False)
     = Some (OkStatus,
             (snd (close_stream
                     (failed_attempt
                        (writer_after [Append, CreateItem ''dist'' 1 1] (UnavailableError []))
                        (Close False))))\<lparr>writer_closed := True\<rparr>) \<and>
   stream_id (snd (close_stream
                     (failed_attempt
                        (writer_after [Append, CreateItem ''dist'' 1 1] (UnavailableError []))
                        (Close False)))) = 1"
proof -
  note ev = writer_after_def failed_attempt_def cut_chunk_def writer_eval
  let ?c = "CreateItem ''dist'' 1 1"
  let ?u = "writer_after [Append, Append] (UnavailableError [])"
  let ?a = "writer_after [Append, Append] \<lparr>code = kAborted, message = []\<rparr>"
  let ?i = "writer_after [Append, Append] (InternalError [])"
  let ?d = "writer_after [Append, CreateItem ''dist'' 1 1] (UnavailableError [])"
  have su: "transmission_start ?u ?c = Some (the (transmission_start ?u ?c))"
    by (simp add: ev)
  have fu: "WritePendingData (the (transmission_start ?u ?c)) = Some (False, failed_attempt ?u ?c)"
    by (simp add: ev)
  have cu: "close_stream (failed_attempt ?u ?c)
      = (fst (close_stream (failed_attempt ?u ?c)), snd (close_stream (failed_attempt ?u ?c)))"
    by simp
  have eu: "fst (close_stream (failed_attempt ?u ?c)) = UnavailableError []"
    "stream_id (failed_attempt ?u ?c) = 1"
    by (simp_all add: ev)
  have ku: "code (UnavailableError []) = kUnavailable" by (simp add: UnavailableError_def)
  note U = writer_retries_transient_unless_disabled [OF su fu cu]
  have ru: "Writer_apply ?u ?c = Writer_apply (snd (close_stream (failed_attempt ?u ?c))) Flush"
    using U eu ku by simp
  have vu: "map_option (\<lambda>r. (code (fst r), stream_id (snd r), requests (snd r)))
      (Writer_apply ?u ?c)
     = Some (kOk, 2,
         [(1, ChunkRequest 0), (2, ChunkRequest 0),
          (2, ItemRequest \<lparr>item_table = ''dist'', item_priority = 1, item_chunk_keys = [0],
                             item_offset = 1, item_length = 1\<rparr>)])"
    by (simp add: ev)
  have va: "map_option (\<lambda>r. (code (fst r), stream_id (snd r), requests (snd r)))
      (Writer_apply ?a ?c)
     = Some (kOk, 2,
         [(1, ChunkRequest 0), (2, ChunkRequest 0),
          (2, ItemRequest \<lparr>item_table = ''dist'', item_priority = 1, item_chunk_keys = [0],
                             item_offset = 1, item_length = 1\<rparr>)])"
    by (simp add: ev)
  have si: "transmission_start ?i ?c = Some (the (transmission_start ?i ?c))"
    by (simp add: ev)
  have fi: "WritePendingData (the (transmission_start ?i ?c)) = Some (False, failed_attempt ?i ?c)"
    by (simp add: ev)
  have ci: "close_stream (failed_attempt ?i ?c)
      = (InternalError [], snd (close_stream (failed_attempt ?i ?c)))"
    by (simp add: ev)
  have ki: "code (InternalError []) \<notin> {kOk, kUnavailable, kAborted}"
    by (simp add: InternalError_def)
  note I = writer_retries_transient_unless_disabled [OF si fi ci]
  have ri: "Writer_apply ?i ?c
      = Some (InternalError [], snd (close_stream (failed_attempt ?i ?c)))"
    using I ki by blast
  have qi: "requests (snd (close_stream (failed_attempt ?i ?c))) = [(1, ChunkRequest 0)]"
    by (simp add: ev)
  have sd: "transmission_start ?d (Close False) = Some (the (transmission_start ?d (Close False)))"
    by (simp add: ev)
  have fd: "WritePendingData (the (transmission_start ?d (Close False)))
      = Some (False, failed_attempt ?d (Close False))"
    by (simp add: ev)
  have cd: "close_stream (failed_attempt ?d (Close False))
      = (UnavailableError [], snd (close_stream (failed_attempt ?d (Close False))))"
    by (simp add: ev)
  note D = writer_retries_transient_unless_disabled [OF sd fd cd]
  have rd: "Writer_apply ?d (Close False)
      = Some (OkStatus,
              (snd (close_stream (failed_attempt ?d (Close False))))\<lparr>writer_closed := True\<rparr>)"
    using D ku by blast
  have qd: "stream_id (snd (close_stream (failed_attempt ?d (Close False)))) = 1"
    by (simp add: ev)
  from eu ru vu va ri qi rd qd show ?thesis by blast
qed

text \<open>
  The claim as first stated does not hold of this writer, on two counts. In
  the scenario of the test \<^verbatim>\<open>CloseDoesntRetryIfRetriesDisabled\<close> the
  stream fails with the transient status Unavailable, and the writer neither
  opens a second stream nor reports an error. In the scenario of the test
  \<^verbatim>\<open>DoesNotRetryOnNonTransientError\<close> the stream fails with the status
  Internal during CreateItem, and it is this call that returns the error; a
  Flush that follows it writes the pending item on a second stream and
  returns OK.
\<close>

theorem writer_failure_handling_counterexample:
  "IsTransient (UnavailableError []) \<and>
   run_summary
     (Writer_run [Append, CreateItem ''dist'' 1 1, Close False]
        (Writer_new (MakeFlakyStub 0 1 (UnavailableError [])) 2 10))
   = Some ([kOk, kOk, kOk], 1, [(1, ChunkRequest 0)]) \<and>
   \<not> IsTransient (InternalError []) \<and>
   run_summary
     (Writer_run [Append, Append, CreateItem ''dist'' 1 1, Flush]
        (Writer_new (MakeFlakyStub 0 1 (InternalError [])) 2 10))
   = Some ([kOk, kOk, kInternal, kOk], 2,
       [(1, ChunkRequest 0), (2, ChunkRequest 0),
        (2, ItemRequest \<lparr>item_table = ''dist'', item_priority = 1, item_chunk_keys = [0],
                           item_offset = 1, item_length = 1\<rparr>)])"
  by (simp add: writer_eval)

end
